theory Spec2Isabelle
  imports Main
begin

section \<open>Strings\<close>

text \<open>
  A JavaScript string is a sequence of UTF-16 code units. The model works on the code
  units U+0000 to U+00FF, one \<^typ>\<open>char\<close> each. On this range \<open>toLowerCase\<close>,
  \<open>trim\<close>, the line terminators excluded by the regular expression \<open>.\<close> and the
  case folding of the \<open>i\<close> flag act on one code unit at a time, as defined below.
\<close>

definition toLowerChar :: "char \<Rightarrow> char" where
  "toLowerChar c =
     (let n = (of_char c :: nat)
      in if (65 \<le> n \<and> n \<le> 90) \<or> (192 \<le> n \<and> n \<le> 222 \<and> n \<noteq> 215)
         then char_of (n + 32) else c)"

definition toLowerCase :: "string \<Rightarrow> string" where
  "toLowerCase s = map toLowerChar s"

text \<open>White space and line terminators removed by \<open>String.prototype.trim\<close>:
  TAB, LF, VT, FF, CR, SP and NBSP.\<close>

definition isWhiteSpace :: "char \<Rightarrow> bool" where
  "isWhiteSpace c \<longleftrightarrow>
     c = CHR 0x09 \<or> c = CHR 0x0A \<or> c = CHR 0x0B \<or> c = CHR 0x0C \<or> c = CHR 0x0D
     \<or> c = CHR 0x20 \<or> c = CHR 0xA0"

definition trim :: "string \<Rightarrow> string" where
  "trim s = rev (dropWhile isWhiteSpace (rev (dropWhile isWhiteSpace s)))"

text \<open>\<open>xs.join(sep)\<close>\<close>

fun join :: "string \<Rightarrow> string list \<Rightarrow> string" where
  "join sep [] = []"
| "join sep [x] = x"
| "join sep (x # y # ys) = x @ sep @ join sep (y # ys)"

section \<open>The regular expressions of the module\<close>

text \<open>
  Every regular expression of the module is a literal, or has the shape
  \<open>open (class)*? close\<close> with literal \<open>open\<close> and \<open>close\<close>, a lazy star over a
  character class, and one capture group around the star. \<open>eq\<close> compares a pattern
  character with a subject character (equality, or equality up to case under the
  \<open>i\<close> flag); \<open>ok\<close> is the character class.
\<close>

text \<open>The class \<open>[\s\S]\<close> accepts every code unit; \<open>.\<close> accepts all but LF and CR
  (and U+2028, U+2029, outside the modelled range).\<close>

definition anyChar :: "char \<Rightarrow> bool" where
  "anyChar c \<longleftrightarrow> True"

definition dotChar :: "char \<Rightarrow> bool" where
  "dotChar c \<longleftrightarrow> c \<noteq> CHR 0x0A \<and> c \<noteq> CHR 0x0D"

text \<open>Canonicalisation under the \<open>i\<close> flag (without the \<open>u\<close> flag): the upper case of
  the code unit. The patterns compared are ASCII, and no code unit from U+0080 on
  canonicalises to an ASCII one, so only the ASCII letters are folded.\<close>

definition canonicalize :: "char \<Rightarrow> char" where
  "canonicalize c =
     (let n = (of_char c :: nat) in if 97 \<le> n \<and> n \<le> 122 then char_of (n - 32) else c)"

definition eqCase :: "char \<Rightarrow> char \<Rightarrow> bool" where
  "eqCase p c \<longleftrightarrow> p = c"

definition eqNoCase :: "char \<Rightarrow> char \<Rightarrow> bool" where
  "eqNoCase p c \<longleftrightarrow> canonicalize p = canonicalize c"

text \<open>The literal \<open>pat\<close> matches at the start of the subject.\<close>

fun matches_at :: "(char \<Rightarrow> char \<Rightarrow> bool) \<Rightarrow> string \<Rightarrow> string \<Rightarrow> bool" where
  "matches_at eq [] s = True"
| "matches_at eq (p # ps) [] = False"
| "matches_at eq (p # ps) (c # s) = (eq p c \<and> matches_at eq ps s)"

text \<open>The index of the first occurrence of \<open>pat\<close>; \<open>s.indexOf(pat)\<close>, with \<open>None\<close>
  for \<open>-1\<close>.\<close>

fun search :: "(char \<Rightarrow> char \<Rightarrow> bool) \<Rightarrow> string \<Rightarrow> string \<Rightarrow> nat option" where
  "search eq pat [] = (if pat = [] then Some 0 else None)"
| "search eq pat (c # s) =
     (if matches_at eq pat (c # s) then Some 0 else map_option Suc (search eq pat s))"

definition indexOf :: "string \<Rightarrow> string \<Rightarrow> nat option" where
  "indexOf s pat = search eqCase pat s"

text \<open>\<open>s.slice(0, b)\<close> and \<open>s.slice(a)\<close>, for indices within the string, are
  \<^const>\<open>take\<close> and \<^const>\<open>drop\<close>.\<close>

text \<open>The lazy star followed by \<open>close\<close>, from the start of the subject: the star
  takes one more character of the class only while \<open>close\<close> does not match. The
  result is the text captured by the star.\<close>

fun lazy_until ::
  "(char \<Rightarrow> char \<Rightarrow> bool) \<Rightarrow> (char \<Rightarrow> bool) \<Rightarrow> string \<Rightarrow> string \<Rightarrow> string option" where
  "lazy_until eq ok cl [] = (if cl = [] then Some [] else None)"
| "lazy_until eq ok cl (c # s) =
     (if matches_at eq cl (c # s) then Some []
      else if ok c then map_option ((#) c) (lazy_until eq ok cl s)
      else None)"

text \<open>The whole expression anchored at the start of the subject.\<close>

definition regex_at ::
  "(char \<Rightarrow> char \<Rightarrow> bool) \<Rightarrow> (char \<Rightarrow> bool) \<Rightarrow> string \<Rightarrow> string \<Rightarrow> string \<Rightarrow> string option" where
  "regex_at eq ok op cl s =
     (if matches_at eq op s then lazy_until eq ok cl (drop (length op) s) else None)"

text \<open>\<open>s.match(re)\<close> without the \<open>g\<close> flag: the leftmost start position at which
  the expression matches, as (index, capture).\<close>

fun regex_exec ::
  "(char \<Rightarrow> char \<Rightarrow> bool) \<Rightarrow> (char \<Rightarrow> bool) \<Rightarrow> string \<Rightarrow> string \<Rightarrow> string \<Rightarrow> (nat \<times> string) option" where
  "regex_exec eq ok op cl [] = map_option (Pair 0) (regex_at eq ok op cl [])"
| "regex_exec eq ok op cl (c # s) =
     (case regex_at eq ok op cl (c # s) of
        Some cap \<Rightarrow> Some (0, cap)
      | None \<Rightarrow> map_option (\<lambda>(i, cap). (Suc i, cap)) (regex_exec eq ok op cl s))"

text \<open>The length of a match with capture \<open>cap\<close>.\<close>

definition match_length :: "string \<Rightarrow> string \<Rightarrow> string \<Rightarrow> nat" where
  "match_length op cl cap = length op + length cap + length cl"

text \<open>\<open>re.test(s)\<close>\<close>

definition regex_test ::
  "(char \<Rightarrow> char \<Rightarrow> bool) \<Rightarrow> (char \<Rightarrow> bool) \<Rightarrow> string \<Rightarrow> string \<Rightarrow> string \<Rightarrow> bool" where
  "regex_test eq ok op cl s \<longleftrightarrow> regex_exec eq ok op cl s \<noteq> None"

text \<open>\<open>s.matchAll(re)\<close> with the \<open>g\<close> flag, as the list of captures: after a match
  the search resumes where the match ended. A match is never empty (\<open>open\<close> is not), so
  the text left after a match at index \<open>i\<close> of length \<open>n\<close> in \<open>c # s\<close> is
  \<open>drop (i + n - 1) s\<close>.\<close>

fun regex_matchAll ::
  "(char \<Rightarrow> char \<Rightarrow> bool) \<Rightarrow> (char \<Rightarrow> bool) \<Rightarrow> string \<Rightarrow> string \<Rightarrow> string \<Rightarrow> string list" where
  "regex_matchAll eq ok op cl [] = []"
| "regex_matchAll eq ok op cl (c # s) =
     (case regex_exec eq ok op cl (c # s) of
        None \<Rightarrow> []
      | Some (i, cap) \<Rightarrow>
          cap # regex_matchAll eq ok op cl (drop (i + match_length op cl cap - 1) s))"

text \<open>\<open>s.replace(/pat/g, rep)\<close> for a literal, non-empty \<open>pat\<close> and a replacement
  without \<open>$\<close>: every occurrence, left to right, without overlap.\<close>

fun replaceAll :: "string \<Rightarrow> string \<Rightarrow> string \<Rightarrow> string" where
  "replaceAll pat rep [] = []"
| "replaceAll pat rep (c # s) =
     (if matches_at eqCase pat (c # s)
      then rep @ replaceAll pat rep (drop (length pat - 1) s)
      else c # replaceAll pat rep s)"

text \<open>The replacement text of \<open>String.prototype.replace\<close> for a replacement given as a
  string (GetSubstitution of ECMA-262): \<open>$$\<close> stands for \<open>$\<close>, \<open>$&\<close> for the matched
  text, \<open>$`\<close> for the text before the match and \<open>$'\<close> for the text after it. The
  expression replaced below has no numbered and no named group, so \<open>$1\<close> to \<open>$99\<close> and
  \<open>$<\<close> stand for themselves.\<close>

fun getSubstitution :: "string \<Rightarrow> string \<Rightarrow> string \<Rightarrow> string \<Rightarrow> string" where
  "getSubstitution matched preceding following [] = []"
| "getSubstitution matched preceding following [c] = [c]"
| "getSubstitution matched preceding following (c # d # r) =
     (if c = CHR ''$'' \<and> d = CHR ''$''
      then CHR ''$'' # getSubstitution matched preceding following r
      else if c = CHR ''$'' \<and> d = CHR ''&''
      then matched @ getSubstitution matched preceding following r
      else if c = CHR ''$'' \<and> d = CHR 0x60
      then preceding @ getSubstitution matched preceding following r
      else if c = CHR ''$'' \<and> d = CHR 0x27
      then following @ getSubstitution matched preceding following r
      else c # getSubstitution matched preceding following (d # r))"

text \<open>\<open>s.replace(re, rep)\<close> without the \<open>g\<close> flag: the first match only.\<close>

definition regex_replace ::
  "(char \<Rightarrow> char \<Rightarrow> bool) \<Rightarrow> (char \<Rightarrow> bool) \<Rightarrow> string \<Rightarrow> string \<Rightarrow> string \<Rightarrow> string \<Rightarrow> string" where
  "regex_replace eq ok op cl s rep =
     (case regex_exec eq ok op cl s of
        None \<Rightarrow> s
      | Some (i, cap) \<Rightarrow>
          (let n = match_length op cl cap
           in take i s
              @ getSubstitution (take n (drop i s)) (take i s) (drop (i + n) s) rep
              @ drop (i + n) s))"

section \<open>Escaping\<close>

text \<open>\<open>escapeXml\<close>: \<open>None\<close> is \<open>undefined\<close> or \<open>null\<close>. The ampersand is replaced
  first.\<close>

definition escapeXml :: "string option \<Rightarrow> string" where
  "escapeXml str =
     (case str of
        None \<Rightarrow> []
      | Some s \<Rightarrow>
          replaceAll [CHR 0x27] ''&apos;''
            (replaceAll [CHR 0x22] ''&quot;''
              (replaceAll ''>'' ''&gt;''
                (replaceAll ''<'' ''&lt;''
                  (replaceAll ''&'' ''&amp;'' s)))))"

text \<open>\<open>unescapeXml\<close>: the ampersand entity is restored last.\<close>

definition unescapeXml :: "string \<Rightarrow> string" where
  "unescapeXml str =
     replaceAll ''&amp;'' ''&''
       (replaceAll ''&lt;'' ''<''
         (replaceAll ''&gt;'' ''>''
           (replaceAll ''&quot;'' [CHR 0x22]
             (replaceAll ''&apos;'' [CHR 0x27] str))))"

section \<open>Sections and elements\<close>

text \<open>\<open>extractXmlSection\<close>: the expression is built from \<open>tagName\<close>, with the \<open>i\<close>
  flag. The tag names passed in the module are made of letters and \<open>_\<close>, so the tags
  are literals.\<close>

definition extractXmlSection :: "string \<Rightarrow> string \<Rightarrow> string option" where
  "extractXmlSection xmlContent tagName =
     (case regex_exec eqNoCase anyChar (''<'' @ tagName @ ''>'') (''</'' @ tagName @ ''>'') xmlContent of
        Some (i, m) \<Rightarrow> Some m
      | None \<Rightarrow> None)"

definition extractXmlElements :: "string \<Rightarrow> string \<Rightarrow> string list" where
  "extractXmlElements xmlContent tagName =
     map (\<lambda>m. unescapeXml (trim m))
       (regex_matchAll eqCase dotChar (''<'' @ tagName @ ''>'') (''</'' @ tagName @ ''>'') xmlContent)"

section \<open>Features\<close>

record ImplementedFeature =
  name :: string
  description :: string
  file_locations :: "string list option"

text \<open>The body of the loop over the feature blocks: the feature read from one block,
  \<open>None\<close> when the name is empty and nothing is pushed. An empty string is falsy, so
  an empty \<open>file_locations\<close> section counts as absent.\<close>

definition parseFeature :: "string \<Rightarrow> ImplementedFeature option" where
  "parseFeature featureContent =
     (let nameMatch = regex_exec eqCase dotChar ''<name>'' ''</name>'' featureContent;
          name' = (case nameMatch of Some (i, m) \<Rightarrow> unescapeXml (trim m) | None \<Rightarrow> []);
          descMatch = regex_exec eqCase dotChar ''<description>'' ''</description>'' featureContent;
          description' = (case descMatch of Some (i, m) \<Rightarrow> unescapeXml (trim m) | None \<Rightarrow> []);
          locationsSection = extractXmlSection featureContent ''file_locations'';
          file_locations' =
            (case locationsSection of
               None \<Rightarrow> None
             | Some sec \<Rightarrow> if sec = [] then None else Some (extractXmlElements sec ''location''))
      in if name' \<noteq> []
         then Some \<lparr>name = name', description = description',
                file_locations =
                  (case file_locations' of
                     None \<Rightarrow> None
                   | Some locs \<Rightarrow> if length locs > 0 then Some locs else None)\<rparr>
         else None)"

fun pushFeatures :: "string list \<Rightarrow> ImplementedFeature list \<Rightarrow> ImplementedFeature list" where
  "pushFeatures [] features = features"
| "pushFeatures (featureContent # featureMatches) features =
     pushFeatures featureMatches
       (case parseFeature featureContent of
          Some f \<Rightarrow> features @ [f]
        | None \<Rightarrow> features)"

definition extractImplementedFeatures :: "string \<Rightarrow> ImplementedFeature list" where
  "extractImplementedFeatures specContent =
     (case extractXmlSection specContent ''implemented_features'' of
        None \<Rightarrow> []
      | Some implementedSection \<Rightarrow>
          if implementedSection = [] then []
          else pushFeatures
                 (regex_matchAll eqCase anyChar ''<feature>'' ''</feature>'' implementedSection) [])"

definition extractImplementedFeatureNames :: "string \<Rightarrow> string list" where
  "extractImplementedFeatureNames specContent = map name (extractImplementedFeatures specContent)"

text \<open>The text of one location: the function mapped over \<open>file_locations\<close> in
  \<open>featureToXml\<close>.\<close>

definition locationToXml :: "string \<Rightarrow> string \<Rightarrow> string" where
  "locationToXml i4 loc = i4 @ ''<location>'' @ escapeXml (Some loc) @ ''</location>''"

definition featureToXml :: "ImplementedFeature \<Rightarrow> string \<Rightarrow> string" where
  "featureToXml feature indent =
     (let i2 = indent @ indent;
          i3 = indent @ indent @ indent;
          i4 = indent @ indent @ indent @ indent;
          xml = i2 @ ''<feature>\<newline>''
                @ i3 @ ''<name>'' @ escapeXml (Some (name feature)) @ ''</name>\<newline>''
                @ i3 @ ''<description>'' @ escapeXml (Some (description feature)) @ ''</description>'';
          xml' = (case file_locations feature of
                    None \<Rightarrow> xml
                  | Some locs \<Rightarrow>
                      if length locs > 0
                      then xml @ ''\<newline>'' @ i3 @ ''<file_locations>\<newline>''
                           @ join ''\<newline>'' (map (locationToXml i4) locs)
                           @ ''\<newline>'' @ i3 @ ''</file_locations>''
                      else xml)
      in xml' @ ''\<newline>'' @ i2 @ ''</feature>'')"

definition featuresToXml :: "ImplementedFeature list \<Rightarrow> string \<Rightarrow> string" where
  "featuresToXml features indent = join ''\<newline>'' (map (\<lambda>f. featureToXml f indent) features)"

section \<open>Writing the section\<close>

text \<open>The text \<open>newSection\<close> built from the features, with the indent of two spaces.\<close>

definition newSectionOf :: "ImplementedFeature list \<Rightarrow> string" where
  "newSectionOf newFeatures =
     ''<implemented_features>\<newline>'' @ featuresToXml newFeatures ''  ''
     @ ''\<newline>'' @ ''  '' @ ''</implemented_features>''"

text \<open>The tags of the expression \<open>sectionRegex\<close> and the two closing tags searched
  with \<open>indexOf\<close>.\<close>

definition sectionOpen :: string where
  "sectionOpen = ''<implemented_features>''"

definition sectionClose :: string where
  "sectionClose = ''</implemented_features>''"

definition coreCapabilitiesEnd :: string where
  "coreCapabilitiesEnd = ''</core_capabilities>''"

definition projectSpecEnd :: string where
  "projectSpecEnd = ''</project_specification>''"

definition updateImplementedFeaturesSection :: "string \<Rightarrow> ImplementedFeature list \<Rightarrow> string" where
  "updateImplementedFeaturesSection specContent newFeatures =
     (let indent = ''  '';
          newSection = newSectionOf newFeatures
      in if regex_test eqCase anyChar sectionOpen sectionClose specContent
         then regex_replace eqCase anyChar sectionOpen sectionClose specContent newSection
         else (case indexOf specContent coreCapabilitiesEnd of
                 Some insertIndex \<Rightarrow>
                   (let insertPosition = insertIndex + length coreCapabilitiesEnd
                    in take insertPosition specContent @ ''\<newline>\<newline>'' @ indent @ newSection
                       @ drop insertPosition specContent)
               | None \<Rightarrow>
                   (case indexOf specContent projectSpecEnd of
                      Some fallbackIndex \<Rightarrow>
                        take fallbackIndex specContent @ indent @ newSection @ ''\<newline>''
                        @ drop fallbackIndex specContent
                    | None \<Rightarrow> specContent)))"

section \<open>Adding, removing and updating a feature\<close>

text \<open>The comparison \<open>f.name.toLowerCase() === featureName.toLowerCase()\<close>.\<close>

definition sameName :: "string \<Rightarrow> ImplementedFeature \<Rightarrow> bool" where
  "sameName featureName f \<longleftrightarrow> toLowerCase (name f) = toLowerCase featureName"

definition addImplementedFeature :: "string \<Rightarrow> ImplementedFeature \<Rightarrow> string" where
  "addImplementedFeature specContent newFeature =
     (let existingFeatures = extractImplementedFeatures specContent;
          isDuplicate = list_ex (sameName (name newFeature)) existingFeatures
      in if isDuplicate then specContent
         else updateImplementedFeaturesSection specContent (existingFeatures @ [newFeature]))"

definition removeImplementedFeature :: "string \<Rightarrow> string \<Rightarrow> string" where
  "removeImplementedFeature specContent featureName =
     (let existingFeatures = extractImplementedFeatures specContent;
          updatedFeatures = filter (\<lambda>f. \<not> sameName featureName f) existingFeatures
      in if length updatedFeatures = length existingFeatures then specContent
         else updateImplementedFeaturesSection specContent updatedFeatures)"

text \<open>A property of a \<open>Partial<ImplementedFeature>\<close>: the key is absent, or present with
  the value \<open>undefined\<close>, or present with a value.\<close>

datatype 'a property = Absent | Undefined | Value 'a

record FeatureUpdates =
  updates_name :: "string property"
  updates_description :: "string property"
  updates_file_locations :: "string list property"

text \<open>The object \<open>{...f, ...updates, name: updates.name ?? f.name}\<close>. A description
  present as \<open>undefined\<close> is written by \<open>escapeXml\<close> as the empty string, which is
  what the record holds for it.\<close>

definition mergeUpdates :: "ImplementedFeature \<Rightarrow> FeatureUpdates \<Rightarrow> ImplementedFeature" where
  "mergeUpdates f updates =
     \<lparr>name = (case updates_name updates of Value n \<Rightarrow> n | _ \<Rightarrow> name f),
      description =
        (case updates_description updates of
           Absent \<Rightarrow> description f | Undefined \<Rightarrow> escapeXml None | Value d \<Rightarrow> d),
      file_locations =
        (case updates_file_locations updates of
           Absent \<Rightarrow> file_locations f | Undefined \<Rightarrow> None | Value l \<Rightarrow> Some l)\<rparr>"

definition updateImplementedFeature :: "string \<Rightarrow> string \<Rightarrow> FeatureUpdates \<Rightarrow> string" where
  "updateImplementedFeature specContent featureName updates =
     (let existingFeatures = extractImplementedFeatures specContent;
          found = list_ex (sameName featureName) existingFeatures;
          updatedFeatures =
            map (\<lambda>f. if sameName featureName f then mergeUpdates f updates else f) existingFeatures
      in if \<not> found then specContent
         else updateImplementedFeaturesSection specContent updatedFeatures)"

definition hasImplementedFeature :: "string \<Rightarrow> string \<Rightarrow> bool" where
  "hasImplementedFeature specContent featureName =
     list_ex (sameName featureName) (extractImplementedFeatures specContent)"

section \<open>The feature list of a spec output\<close>

text \<open>Modelled from the spec: the element type of \<open>SpecOutput['implemented_features']\<close>
  is declared in the package \<open>@automaker/types\<close>, which is not part of the sources. The
  spec describes it as the same three fields: a name, a description and an optional
  list of file locations.\<close>

record SpecOutputFeature =
  so_name :: string
  so_description :: string
  so_file_locations :: "string list option"

definition toSpecOutputFeatures :: "ImplementedFeature list \<Rightarrow> SpecOutputFeature list" where
  "toSpecOutputFeatures features =
     map (\<lambda>f. \<lparr>so_name = name f, so_description = description f,
               so_file_locations =
                 (case file_locations f of
                    None \<Rightarrow> None
                  | Some locs \<Rightarrow> if length locs > 0 then Some locs else None)\<rparr>) features"

definition fromSpecOutputFeatures :: "SpecOutputFeature list \<Rightarrow> ImplementedFeature list" where
  "fromSpecOutputFeatures specFeatures =
     map (\<lambda>f. \<lparr>name = so_name f, description = so_description f,
               file_locations =
                 (case so_file_locations f of
                    None \<Rightarrow> None
                  | Some locs \<Rightarrow> if length locs > 0 then Some locs else None)\<rparr>) specFeatures"

section \<open>The insertion policy as the specification words it\<close>

text \<open>The span of the existing section: from the first opening tag to the end of the
  first closing tag after it, when both exist.\<close>

definition sectionSpan :: "string \<Rightarrow> (nat \<times> nat) option" where
  "sectionSpan d =
     (case indexOf d sectionOpen of
        None \<Rightarrow> None
      | Some i \<Rightarrow>
          (case indexOf (drop (i + length sectionOpen) d) sectionClose of
             None \<Rightarrow> None
           | Some j \<Rightarrow> Some (i, i + length sectionOpen + j + length sectionClose)))"

text \<open>The ordered policy: replace the span in place; else insert after the first
  \<open></core_capabilities>\<close>; else insert before the first \<open></project_specification>\<close>;
  else leave the document as it is. The text put in place of the span is the new
  section.\<close>

definition sectionPolicy :: "string \<Rightarrow> ImplementedFeature list \<Rightarrow> string" where
  "sectionPolicy d F =
     (case sectionSpan d of
        Some (i, e) \<Rightarrow>
          take i d @ newSectionOf F @ drop e d
      | None \<Rightarrow>
          (case indexOf d coreCapabilitiesEnd of
             Some k \<Rightarrow>
               take (k + length coreCapabilitiesEnd) d
               @ ''\<newline>\<newline>  '' @ newSectionOf F
               @ drop (k + length coreCapabilitiesEnd) d
           | None \<Rightarrow>
               (case indexOf d projectSpecEnd of
                  Some k \<Rightarrow> take k d @ ''  '' @ newSectionOf F @ ''\<newline>'' @ drop k d
                | None \<Rightarrow> d)))"

section \<open>Auxiliary notions for the proofs\<close>

text \<open>What \<open>escapeXml\<close> writes for one character.\<close>

definition escapeChar :: "char \<Rightarrow> string" where
  "escapeChar c =
     (if c = CHR ''&'' then ''&amp;''
      else if c = CHR ''<'' then ''&lt;''
      else if c = CHR ''>'' then ''&gt;''
      else if c = CHR 0x22 then ''&quot;''
      else if c = CHR 0x27 then ''&apos;''
      else [c])"

text \<open>\<open>compatible eq pat s\<close>: \<open>pat\<close> and \<open>s\<close> agree as far as both go, so \<open>pat\<close>
  could match at the start of \<open>s\<close> followed by more text. A text is inert for
  \<open>pat\<close> when \<open>pat\<close> is compatible with none of its non-empty suffixes: no match of
  \<open>pat\<close> starts inside it, whatever follows.\<close>

fun compatible :: "(char \<Rightarrow> char \<Rightarrow> bool) \<Rightarrow> string \<Rightarrow> string \<Rightarrow> bool" where
  "compatible eq [] s = True"
| "compatible eq (p # ps) [] = True"
| "compatible eq (p # ps) (c # s) = (eq p c \<and> compatible eq ps s)"

fun inert :: "(char \<Rightarrow> char \<Rightarrow> bool) \<Rightarrow> string \<Rightarrow> string \<Rightarrow> bool" where
  "inert eq pat [] = True"
| "inert eq pat (c # s) = (\<not> compatible eq pat (c # s) \<and> inert eq pat s)"

text \<open>Text that the parser gives back as it is: no white space at either end and no
  line terminator.\<close>

definition plainText :: "string \<Rightarrow> bool" where
  "plainText s \<longleftrightarrow> trim s = s \<and> list_all dotChar s"

text \<open>A feature that is written and read back unchanged: a non-empty name, plain text
  in every field, and a list of locations that is absent or non-empty.\<close>

definition cleanFeature :: "ImplementedFeature \<Rightarrow> bool" where
  "cleanFeature f \<longleftrightarrow>
     name f \<noteq> [] \<and> plainText (name f) \<and> plainText (description f)
     \<and> (case file_locations f of None \<Rightarrow> True | Some locs \<Rightarrow> locs \<noteq> [] \<and> list_all plainText locs)"

text \<open>The pieces of the text of one feature, as \<open>featureToXml\<close> writes them with
  the indent of two spaces: the text between the \<open>file_locations\<close> tags, the
  \<open>file_locations\<close> element, and the text between the \<open>feature\<close> tags.\<close>

definition locationsBody :: "string list \<Rightarrow> string" where
  "locationsBody locs =
     ''\<newline>'' @ join ''\<newline>'' (map (locationToXml ''        '') locs) @ ''\<newline>      ''"

definition locationsXml :: "ImplementedFeature \<Rightarrow> string" where
  "locationsXml f =
     (case file_locations f of
        None \<Rightarrow> []
      | Some locs \<Rightarrow>
          if locs = [] then []
          else ''\<newline>      '' @ ''<file_locations>'' @ locationsBody locs @ ''</file_locations>'')"

definition featureBody :: "ImplementedFeature \<Rightarrow> string" where
  "featureBody f =
     ''\<newline>      '' @ ''<name>'' @ escapeXml (Some (name f)) @ ''</name>''
     @ ''\<newline>      '' @ ''<description>'' @ escapeXml (Some (description f)) @ ''</description>''
     @ locationsXml f @ ''\<newline>    ''"

text \<open>The text between the tags of the section that is written for a list of
  features.\<close>

definition sectionBody :: "ImplementedFeature list \<Rightarrow> string" where
  "sectionBody F = ''\<newline>'' @ featuresToXml F ''  '' @ ''\<newline>  ''"

text \<open>No field of the feature contains \<open>$\<close>, the character that starts a pattern in
  a replacement string.\<close>

definition dollarFree :: "ImplementedFeature \<Rightarrow> bool" where
  "dollarFree f \<longleftrightarrow>
     CHR ''$'' \<notin> set (name f) \<and> CHR ''$'' \<notin> set (description f)
     \<and> (case file_locations f of None \<Rightarrow> True | Some locs \<Rightarrow> list_all (\<lambda>l. CHR ''$'' \<notin> set l) locs)"

text \<open>The section of the document is well formed or absent: the first opening tag,
  in any letter case, is the lower-case one and a lower-case closing tag follows it, or
  the document has no opening tag in any letter case.\<close>

definition sectionWellFormed :: "string \<Rightarrow> bool" where
  "sectionWellFormed d \<longleftrightarrow>
     (case search eqNoCase sectionOpen d of
        None \<Rightarrow> True
      | Some i \<Rightarrow>
          search eqCase sectionOpen d = Some i
          \<and> search eqCase sectionClose (drop (i + length sectionOpen) d) \<noteq> None)"

text \<open>One of the first three rules of the policy applies to the document.\<close>

definition hasInsertionPoint :: "string \<Rightarrow> bool" where
  "hasInsertionPoint d \<longleftrightarrow>
     regex_test eqCase anyChar sectionOpen sectionClose d
     \<or> indexOf d coreCapabilitiesEnd \<noteq> None \<or> indexOf d projectSpecEnd \<noteq> None"

section \<open>The layout of a well-formed section\<close>





















section \<open>Case folding on the bits of a character\<close>

text \<open>The two case mappings, computed on the eight bits of the code unit.\<close>

lemma canonicalize_Char [code]:
  "canonicalize (Char b0 b1 b2 b3 b4 b5 b6 b7) =
     (if \<not> b7 \<and> b6 \<and> b5 \<and> (b0 \<or> b1 \<or> b2 \<or> b3 \<or> b4) \<and> \<not> (b4 \<and> b3 \<and> (b2 \<or> (b1 \<and> b0)))
      then Char b0 b1 b2 b3 b4 False b6 b7
      else Char b0 b1 b2 b3 b4 b5 b6 b7)"
  unfolding canonicalize_def Let_def
  by (cases b0; cases b1; cases b2; cases b3; cases b4; cases b5; cases b6; cases b7;
      simp add: char_of_def bit_Suc_0_iff)

lemma toLowerChar_Char [code]:
  "toLowerChar (Char b0 b1 b2 b3 b4 b5 b6 b7) =
     (if b6 \<and> \<not> b5 \<and>
         ((\<not> b7 \<and> (b0 \<or> b1 \<or> b2 \<or> b3 \<or> b4) \<and> \<not> (b4 \<and> b3 \<and> (b2 \<or> (b1 \<and> b0))))
          \<or> (b7 \<and> \<not> (b0 \<and> b1 \<and> b2 \<and> b4)))
      then Char b0 b1 b2 b3 b4 True b6 b7
      else Char b0 b1 b2 b3 b4 b5 b6 b7)"
  unfolding toLowerChar_def Let_def
  by (cases b0; cases b1; cases b2; cases b3; cases b4; cases b5; cases b6; cases b7;
      simp add: char_of_def bit_Suc_0_iff)

section \<open>Searching and matching\<close>

lemma lazy_until_any_search:
  "lazy_until eq anyChar cl t = (case search eq cl t of None \<Rightarrow> None | Some j \<Rightarrow> Some (take j t))"
  by (induction t) (auto simp: anyChar_def split: option.splits)

lemma search_None_drop:
  "search eq pat t = None \<Longrightarrow> search eq pat (drop k t) = None"
proof (induction t arbitrary: k)
  case Nil
  then show ?case by simp
next
  case (Cons c t)
  then show ?case by (cases k) (auto split: if_splits)
qed

lemma regex_exec_search:
  "regex_exec eq anyChar op cl s =
     (case search eq op s of
        None \<Rightarrow> None
      | Some i \<Rightarrow>
          (case search eq cl (drop (i + length op) s) of
             None \<Rightarrow> None
           | Some j \<Rightarrow> Some (i, take j (drop (i + length op) s))))"
proof (induction s)
  case Nil
  show ?case by (cases op) (auto simp: regex_at_def lazy_until_any_search split: option.splits)
next
  case (Cons c s)
  show ?case
  proof (cases "matches_at eq op (c # s)")
    case True
    show ?thesis
    proof (cases "search eq cl (drop (length op) (c # s))")
      case None
      have "search eq cl (drop (i + length op) s) = None" for i
      proof -
        have "drop (i + length op) s = drop (Suc i) (drop (length op) (c # s))"
          by (simp add: add.commute)
        then show ?thesis using search_None_drop [OF None, of "Suc i"] by simp
      qed
      then show ?thesis using True None Cons.IH
        by (auto simp: regex_at_def lazy_until_any_search split: option.splits)
    next
      case (Some j)
      then show ?thesis using True
        by (simp add: regex_at_def lazy_until_any_search)
    qed
  next
    case False
    then show ?thesis using Cons.IH
      by (auto simp: regex_at_def split: option.splits)
  qed
qed

lemma search_Some_le: "search eq pat s = Some i \<Longrightarrow> i \<le> length s"
  by (induction s arbitrary: i) (auto split: if_splits)

lemma search_Some_bound:
  "search eq pat s = Some i \<Longrightarrow> i + length pat \<le> length s"
proof (induction s arbitrary: i)
  case Nil
  then show ?case by (auto split: if_splits)
next
  case (Cons c s)
  have m: "matches_at eq pat t \<Longrightarrow> length pat \<le> length t" for t
    by (induction eq pat t rule: matches_at.induct) auto
  show ?case using Cons m [of "c # s"] by (auto split: if_splits)
qed

lemma matches_at_eqCase_take:
  "matches_at eqCase pat s \<Longrightarrow> take (length pat) s = pat"
  by (induction eqCase pat s rule: matches_at.induct) (auto simp: eqCase_def)

lemma matches_at_eqCase_iff:
  "matches_at eqCase pat s \<longleftrightarrow> take (length pat) s = pat"
proof
  show "take (length pat) s = pat \<Longrightarrow> matches_at eqCase pat s"
  proof (induction pat arbitrary: s)
    case Nil
    then show ?case by simp
  next
    case (Cons p ps)
    then show ?case by (cases s) (auto simp: eqCase_def)
  qed
qed (rule matches_at_eqCase_take)

lemma search_Some_matches:
  "search eq pat s = Some i \<Longrightarrow> matches_at eq pat (drop i s)"
  by (induction s arbitrary: i) (auto split: if_splits)

lemma search_eqCase_decomp:
  assumes "search eqCase pat s = Some i"
  shows "s = take i s @ pat @ drop (i + length pat) s"
proof -
  have "take (length pat) (drop i s) = pat"
    using search_Some_matches [OF assms] by (rule matches_at_eqCase_take)
  then have "drop i s = pat @ drop (length pat) (drop i s)"
    by (metis append_take_drop_id)
  then have "drop i s = pat @ drop (i + length pat) s"
    by (simp add: add.commute)
  then show ?thesis by (metis append_take_drop_id)
qed

lemma regex_exec_eqCase_decomp:
  assumes "regex_exec eqCase anyChar op cl s = Some (i, cap)"
  shows "s = take i s @ (op @ cap @ cl) @ drop (i + match_length op cl cap) s"
proof -
  from assms obtain j where
    i: "search eqCase op s = Some i" and
    j: "search eqCase cl (drop (i + length op) s) = Some j" and
    cap: "cap = take j (drop (i + length op) s)"
    by (auto simp: regex_exec_search split: option.splits)
  have "j + length cl \<le> length (drop (i + length op) s)"
    using search_Some_bound [OF j] .
  then have len: "length cap = j" using cap by simp
  have 1: "s = take i s @ op @ drop (i + length op) s"
    using search_eqCase_decomp [OF i] .
  have 2: "drop (i + length op) s = cap @ cl @ drop (j + length cl) (drop (i + length op) s)"
    using search_eqCase_decomp [OF j] cap by simp
  have 3: "drop (j + length cl) (drop (i + length op) s) = drop (i + match_length op cl cap) s"
    by (simp add: match_length_def len add.commute add.left_commute)
  show ?thesis using 1 2 3 by (metis append.assoc)
qed

lemma frameI:
  "d = pre @ old @ post \<Longrightarrow> r = pre @ new @ post \<Longrightarrow> P pre old \<Longrightarrow>
     \<exists>pre old new post. d = pre @ old @ post \<and> r = pre @ new @ post \<and> P pre old"
  by blast

section \<open>Occurrences and insertion\<close>


lemma matches_at_append:
  "length pat \<le> length a \<Longrightarrow> matches_at eq pat (a @ b) = matches_at eq pat a"
  by (induction eq pat a rule: matches_at.induct) auto

lemma search_exists:
  "matches_at eq pat (drop p s) \<Longrightarrow> p \<le> length s \<Longrightarrow> \<exists>i. search eq pat s = Some i \<and> i \<le> p"
proof (induction s arbitrary: p)
  case Nil
  then show ?case by (cases pat) auto
next
  case (Cons c s)
  show ?case
  proof (cases "matches_at eq pat (c # s)")
    case True
    then show ?thesis by simp
  next
    case False
    then obtain p' where p: "p = Suc p'" using Cons.prems by (cases p) auto
    then obtain i where "search eq pat s = Some i" "i \<le> p'"
      using Cons.IH [of p'] Cons.prems by auto
    then show ?thesis using False p by simp
  qed
qed

lemma matches_at_refl: "(\<And>c. eq c c) \<Longrightarrow> matches_at eq pat (pat @ s)"
  by (induction pat) auto

lemma eqNoCase_refl: "eqNoCase c c"
  by (simp add: eqNoCase_def)

section \<open>Inert text\<close>

lemma matches_at_compatible:
  "matches_at eq pat (t @ rest) \<Longrightarrow> compatible eq pat t"
  by (induction eq pat t rule: compatible.induct) auto

lemma compatible_append: "compatible eq pat (a @ b) \<Longrightarrow> compatible eq pat a"
  by (induction eq pat a rule: compatible.induct) auto

lemma inert_append: "inert eq pat a \<Longrightarrow> inert eq pat b \<Longrightarrow> inert eq pat (a @ b)"
proof (induction a)
  case Nil
  then show ?case by simp
next
  case (Cons c a)
  then show ?case using compatible_append [of eq pat "c # a" b] by auto
qed


lemma inert_no_head: "(\<And>c. c \<in> set t \<Longrightarrow> \<not> eq p c) \<Longrightarrow> inert eq (p # ps) t"
  by (induction t) auto

lemma inert_not_matches: "inert eq pat (c # t) \<Longrightarrow> \<not> matches_at eq pat (c # t @ rest)"
  using matches_at_compatible [of eq pat "c # t" rest] by auto

lemma search_inert:
  "inert eq pat t \<Longrightarrow> search eq pat (t @ rest) = map_option ((+) (length t)) (search eq pat rest)"
proof (induction t)
  case Nil
  show ?case by (simp add: option.map_ident)
next
  case (Cons c t)
  then have "\<not> matches_at eq pat (c # t @ rest)" by (intro inert_not_matches)
  then show ?case using Cons by (simp add: option.map_comp comp_def)
qed

lemma search_found:
  "(\<And>c. eq c c) \<Longrightarrow> inert eq pat t \<Longrightarrow> search eq pat (t @ pat @ rest) = Some (length t)"
proof -
  assume r: "\<And>c. eq c c" and "inert eq pat t"
  then have "search eq pat (t @ pat @ rest) = map_option ((+) (length t)) (search eq pat (pat @ rest))"
    by (intro search_inert)
  moreover have "search eq pat (pat @ rest) = Some 0"
    using matches_at_refl [of eq pat rest] r by (cases "pat @ rest") auto
  ultimately show ?thesis by simp
qed

lemma lazy_until_inert:
  "inert eq cl t \<Longrightarrow> list_all ok t \<Longrightarrow>
     lazy_until eq ok cl (t @ rest) = map_option ((@) t) (lazy_until eq ok cl rest)"
proof (induction t)
  case Nil
  show ?case by (simp add: option.map_ident)
next
  case (Cons c t)
  then have "\<not> matches_at eq cl (c # t @ rest)" by (intro inert_not_matches)
  then show ?case using Cons by (simp add: option.map_comp comp_def)
qed

lemma lazy_until_found:
  assumes "\<And>c. eq c c" and "inert eq cl t" and "list_all ok t" and "cl \<noteq> []"
  shows "lazy_until eq ok cl (t @ cl @ rest) = Some t"
proof -
  have "matches_at eq cl (cl @ rest)" using assms(1) by (rule matches_at_refl)
  then have "lazy_until eq ok cl (cl @ rest) = Some []"
    using assms(4) by (cases cl) auto
  then show ?thesis using lazy_until_inert [OF assms(2,3)] by simp
qed

lemma regex_at_found:
  assumes "\<And>c. eq c c" and "inert eq cl t" and "list_all ok t" and "cl \<noteq> []"
  shows "regex_at eq ok op cl (op @ t @ cl @ rest) = Some t"
  using matches_at_refl [of eq op "t @ cl @ rest"] assms lazy_until_found [OF assms]
  by (simp add: regex_at_def)

lemma regex_exec_inert:
  "inert eq op t \<Longrightarrow>
     regex_exec eq ok op cl (t @ rest) =
       map_option (\<lambda>(i, cap). (length t + i, cap)) (regex_exec eq ok op cl rest)"
proof (induction t)
  case Nil
  show ?case by (simp add: option.map_ident)
next
  case (Cons c t)
  then have "\<not> matches_at eq op (c # t @ rest)" by (intro inert_not_matches)
  then show ?case using Cons
    by (simp add: regex_at_def option.map_comp comp_def split_def)
qed

lemma regex_exec_None:
  "inert eq op t \<Longrightarrow> op \<noteq> [] \<Longrightarrow> regex_exec eq ok op cl t = None"
  using regex_exec_inert [of eq op t ok cl "[]"] by (cases op) (auto simp: regex_at_def)

lemma regex_exec_found:
  assumes "\<And>c. eq c c" and "inert eq op a" and "inert eq cl t" and "list_all ok t"
    and "op \<noteq> []" and "cl \<noteq> []"
  shows "regex_exec eq ok op cl (a @ op @ t @ cl @ rest) = Some (length a, t)"
proof -
  have "regex_at eq ok op cl (op @ t @ cl @ rest) = Some t"
    using assms(1,3,4,6) by (rule regex_at_found)
  then have "regex_exec eq ok op cl (op @ t @ cl @ rest) = Some (0, t)"
    using assms(5) by (cases op) auto
  then show ?thesis using regex_exec_inert [OF assms(2)] by simp
qed

lemma regex_matchAll_inert:
  "inert eq op t \<Longrightarrow> op \<noteq> [] \<Longrightarrow> regex_matchAll eq ok op cl t = []"
proof (cases t)
  case Nil
  then show ?thesis by simp
next
  case (Cons c t')
  assume "inert eq op t" "op \<noteq> []"
  then have "regex_exec eq ok op cl (c # t') = None"
    unfolding Cons by (rule regex_exec_None)
  then show ?thesis unfolding Cons by (simp del: regex_exec.simps)
qed

lemma regex_matchAll_found:
  assumes "\<And>c. eq c c" and "inert eq op a" and "inert eq cl t" and "list_all ok t"
    and "op \<noteq> []" and "cl \<noteq> []"
  shows "regex_matchAll eq ok op cl (a @ op @ t @ cl @ rest) = t # regex_matchAll eq ok op cl rest"
proof -
  let ?s = "a @ op @ t @ cl @ rest"
  have ex: "regex_exec eq ok op cl ?s = Some (length a, t)"
    using assms by (rule regex_exec_found)
  obtain c s' where s: "?s = c # s'" using assms(5) by (cases ?s) auto
  have "0 < length a + match_length op cl t"
    using assms(5) by (simp add: match_length_def)
  then have "drop (length a + match_length op cl t - 1) s' = drop (length a + match_length op cl t) ?s"
    unfolding s by (simp add: drop_Cons')
  also have "\<dots> = rest" by (simp add: match_length_def)
  finally have "drop (length a + match_length op cl t - 1) s' = rest" .
  then show ?thesis using ex unfolding s by (simp del: regex_exec.simps)
qed

section \<open>Escaping and unescaping\<close>

lemma replaceAll_single:
  "replaceAll [p] rep s = concat (map (\<lambda>c. if c = p then rep else [c]) s)"
  by (induction s) (auto simp: eqCase_def)

lemma replaceAll_inert:
  "inert eqCase pat t \<Longrightarrow> replaceAll pat rep (t @ rest) = t @ replaceAll pat rep rest"
proof (induction t)
  case Nil
  then show ?case by simp
next
  case (Cons c t)
  then have "\<not> matches_at eqCase pat ((c # t) @ rest)"
    using matches_at_compatible by auto
  then show ?case using Cons by simp
qed

lemma replaceAll_match:
  "pat \<noteq> [] \<Longrightarrow> replaceAll pat rep (pat @ rest) = rep @ replaceAll pat rep rest"
proof -
  assume "pat \<noteq> []"
  then obtain p ps where pat: "pat = p # ps" by (cases pat) auto
  have "matches_at eqCase pat (pat @ rest)"
    by (simp add: matches_at_eqCase_iff)
  then show ?thesis by (simp add: pat)
qed

lemma replaceAll_tokens:
  assumes "pat \<noteq> []" and "\<And>c. f c = pat \<or> inert eqCase pat (f c)"
  shows "replaceAll pat rep (concat (map f s)) = concat (map (\<lambda>c. if f c = pat then rep else f c) s)"
proof (induction s)
  case Nil
  show ?case by simp
next
  case (Cons c s)
  show ?case
  proof (cases "f c = pat")
    case True
    then show ?thesis using Cons replaceAll_match [OF assms(1)] by simp
  next
    case False
    then have "inert eqCase pat (f c)" using assms(2) by blast
    then show ?thesis using Cons False by (simp add: replaceAll_inert)
  qed
qed

lemma escapeXml_concat: "escapeXml (Some s) = concat (map escapeChar s)"
proof -
  have "concat (map (\<lambda>c. if c = q then r else [c]) (concat (map f s)))
      = concat (map (\<lambda>c. concat (map (\<lambda>c. if c = q then r else [c]) (f c))) s)" for q r f
    by (induction s) simp_all
  note step = this
  have "escapeXml (Some s) = concat (map (\<lambda>c.
      concat (map (\<lambda>c. if c = CHR 0x27 then ''&apos;'' else [c])
       (concat (map (\<lambda>c. if c = CHR 0x22 then ''&quot;'' else [c])
         (concat (map (\<lambda>c. if c = CHR ''>'' then ''&gt;'' else [c])
           (concat (map (\<lambda>c. if c = CHR ''<'' then ''&lt;'' else [c])
             (if c = CHR ''&'' then ''&amp;'' else [c]))))))))) s)"
    unfolding escapeXml_def option.case replaceAll_single step ..
  also have "\<dots> = concat (map escapeChar s)"
    by (intro arg_cong [where f = concat] map_cong refl) (simp add: escapeChar_def)
  finally show ?thesis .
qed

lemma unescapeXml_escapeXml: "unescapeXml (escapeXml (Some s)) = s"
proof -
  let ?e1 = "\<lambda>c. if escapeChar c = ''&apos;'' then [CHR 0x27] else escapeChar c"
  let ?e2 = "\<lambda>c. if ?e1 c = ''&quot;'' then [CHR 0x22] else ?e1 c"
  let ?e3 = "\<lambda>c. if ?e2 c = ''&gt;'' then ''>'' else ?e2 c"
  let ?e4 = "\<lambda>c. if ?e3 c = ''&lt;'' then ''<'' else ?e3 c"
  let ?e5 = "\<lambda>c. if ?e4 c = ''&amp;'' then ''&'' else ?e4 c"
  have 1: "replaceAll ''&apos;'' [CHR 0x27] (concat (map escapeChar s)) = concat (map ?e1 s)"
    by (rule replaceAll_tokens) (simp_all add: escapeChar_def eqCase_def)
  have 2: "replaceAll ''&quot;'' [CHR 0x22] (concat (map ?e1 s)) = concat (map ?e2 s)"
    by (rule replaceAll_tokens) (simp_all add: escapeChar_def eqCase_def)
  have 3: "replaceAll ''&gt;'' ''>'' (concat (map ?e2 s)) = concat (map ?e3 s)"
    by (rule replaceAll_tokens) (simp_all add: escapeChar_def eqCase_def)
  have 4: "replaceAll ''&lt;'' ''<'' (concat (map ?e3 s)) = concat (map ?e4 s)"
    by (rule replaceAll_tokens) (simp_all add: escapeChar_def eqCase_def)
  have 5: "replaceAll ''&amp;'' ''&'' (concat (map ?e4 s)) = concat (map ?e5 s)"
    by (rule replaceAll_tokens) (simp_all add: escapeChar_def eqCase_def)
  have 6: "?e5 = (\<lambda>c. [c])"
    by (rule ext) (simp add: escapeChar_def)
  have "unescapeXml (escapeXml (Some s)) = concat (map ?e5 s)"
    unfolding unescapeXml_def escapeXml_concat 1 2 3 4 5 ..
  also have "\<dots> = s" unfolding 6 by (induction s) simp_all
  finally show ?thesis .
qed

section \<open>Trimmed text and text on one line\<close>

lemma dropWhile_id_iff: "dropWhile P xs = xs \<longleftrightarrow> xs = [] \<or> \<not> P (hd xs)"
proof (cases xs)
  case Nil
  then show ?thesis by simp
next
  case (Cons x xs')
  have "length (dropWhile P xs') \<le> length xs'" by (rule length_dropWhile_le)
  then have "dropWhile P xs' \<noteq> x # xs'" by (metis impossible_Cons)
  then show ?thesis using Cons by auto
qed

lemma trim_id_iff:
  "trim s = s \<longleftrightarrow> s = [] \<or> (\<not> isWhiteSpace (hd s) \<and> \<not> isWhiteSpace (last s))"
proof (cases "s = []")
  case True
  then show ?thesis by (simp add: trim_def)
next
  case False
  show ?thesis
  proof (cases "isWhiteSpace (hd s)")
    case True
    have "length (trim s) \<le> length (dropWhile isWhiteSpace s)"
      unfolding trim_def using length_dropWhile_le [of isWhiteSpace "rev (dropWhile isWhiteSpace s)"]
      by simp
    moreover have "length (dropWhile isWhiteSpace s) < length s"
      using False True by (cases s) (auto simp: le_imp_less_Suc length_dropWhile_le)
    ultimately have "trim s \<noteq> s" by auto
    then show ?thesis using True False by simp
  next
    case hd: False
    then have 1: "dropWhile isWhiteSpace s = s" by (simp add: dropWhile_id_iff)
    have "trim s = s \<longleftrightarrow> dropWhile isWhiteSpace (rev s) = rev s"
      unfolding trim_def 1 by (metis rev_rev_ident)
    also have "\<dots> \<longleftrightarrow> \<not> isWhiteSpace (hd (rev s))"
      using False by (simp add: dropWhile_id_iff)
    also have "\<dots> \<longleftrightarrow> \<not> isWhiteSpace (last s)"
      using False by (simp add: hd_rev)
    finally show ?thesis using hd False by simp
  qed
qed

lemma trim_trim: "trim (trim s) = trim s"
proof -
  let ?a = "dropWhile isWhiteSpace s"
  let ?b = "dropWhile isWhiteSpace (rev ?a)"
  have t: "trim s = rev ?b" by (simp add: trim_def)
  show ?thesis
  proof (cases "?b = []")
    case True
    then have e: "trim s = []" unfolding t by simp
    have "trim [] = []" by (simp add: trim_def)
    then show ?thesis unfolding e .
  next
    case False
    then have "\<not> isWhiteSpace (hd ?b)" by (rule hd_dropWhile)
    then have l: "\<not> isWhiteSpace (last (rev ?b))" using False by (simp add: last_rev)
    have "?a \<noteq> []"
    proof
      assume "?a = []"
      then have "?b = []" by (metis dropWhile.simps(1) rev.simps(1))
      then show False using False by simp
    qed
    then have ha: "\<not> isWhiteSpace (hd ?a)" by (rule hd_dropWhile)
    have "\<exists>ws. rev ?a = ws @ ?b" by (metis takeWhile_dropWhile_id)
    then obtain ws where "rev ?a = ws @ ?b" ..
    then have "?a = rev ?b @ rev ws" by (metis rev_append rev_rev_ident)
    then have "hd ?a = hd (rev ?b)" using False by (metis hd_append2 rev_is_Nil_conv)
    then have "\<not> isWhiteSpace (hd (rev ?b))" using ha by simp
    then show ?thesis unfolding t using l by (simp add: trim_id_iff)
  qed
qed

lemma set_trim: "set (trim s) \<subseteq> set s"
proof
  fix x
  assume "x \<in> set (trim s)"
  then have "x \<in> set (dropWhile isWhiteSpace (rev (dropWhile isWhiteSpace s)))"
    by (simp add: trim_def)
  then have "x \<in> set (rev (dropWhile isWhiteSpace s))" by (rule set_dropWhileD)
  then have "x \<in> set (dropWhile isWhiteSpace s)" by simp
  then show "x \<in> set s" by (rule set_dropWhileD)
qed

lemma list_all_trim: "list_all P s \<Longrightarrow> list_all P (trim s)"
  using set_trim [of s] by (auto simp: list_all_iff)

section \<open>Escaped text\<close>

lemma escapeChar_not_Nil: "escapeChar c \<noteq> []"
  by (simp add: escapeChar_def)

lemma escapeXml_chars:
  assumes "x \<in> set (escapeXml (Some s))"
  shows "x \<in> set s \<or> x \<in> set ''&amp;ltgquos''"
proof -
  from assms obtain c where "c \<in> set s" "x \<in> set (escapeChar c)"
    by (auto simp: escapeXml_concat)
  then show ?thesis by (auto simp: escapeChar_def split: if_splits)
qed

lemma escapeXml_no_lt: "CHR ''<'' \<notin> set (escapeXml (Some s))"
proof
  assume "CHR ''<'' \<in> set (escapeXml (Some s))"
  then obtain c where "c \<in> set s" "CHR ''<'' \<in> set (escapeChar c)"
    by (auto simp: escapeXml_concat)
  then show False by (auto simp: escapeChar_def split: if_splits)
qed

lemma escapeXml_dotChar: "list_all dotChar s \<Longrightarrow> list_all dotChar (escapeXml (Some s))"
  using escapeXml_chars [of _ s] by (fastforce simp: list_all_iff dotChar_def)

lemma escapeXml_no_dollar: "CHR ''$'' \<notin> set s \<Longrightarrow> CHR ''$'' \<notin> set (escapeXml (Some s))"
  using escapeXml_chars [of "CHR ''$''" s] by auto

lemma hd_concat_map:
  "s \<noteq> [] \<Longrightarrow> (\<And>c. f c \<noteq> []) \<Longrightarrow> hd (concat (map f s)) = hd (f (hd s))"
  by (cases s) auto

lemma last_concat_map:
  "s \<noteq> [] \<Longrightarrow> (\<And>c. f c \<noteq> []) \<Longrightarrow> last (concat (map f s)) = last (f (last s))"
proof (induction s)
  case Nil
  then show ?case by simp
next
  case (Cons c s)
  then show ?case by (cases s) auto
qed

lemma escapeXml_trim: "trim s = s \<Longrightarrow> trim (escapeXml (Some s)) = escapeXml (Some s)"
proof (cases "s = []")
  case True
  then show ?thesis by (simp add: escapeXml_concat trim_def)
next
  case False
  assume "trim s = s"
  then have s: "\<not> isWhiteSpace (hd s)" "\<not> isWhiteSpace (last s)"
    using False by (simp_all add: trim_id_iff)
  have h: "\<not> isWhiteSpace (hd (escapeChar c))" if "\<not> isWhiteSpace c" for c
    using that by (simp add: escapeChar_def isWhiteSpace_def)
  have l: "\<not> isWhiteSpace (last (escapeChar c))" if "\<not> isWhiteSpace c" for c
    using that by (simp add: escapeChar_def isWhiteSpace_def)
  have "escapeXml (Some s) \<noteq> []"
    using False by (cases s) (simp_all add: escapeXml_concat escapeChar_not_Nil)
  then show ?thesis
    unfolding trim_id_iff [of "escapeXml (Some s)"]
    using False s h l
    by (simp add: escapeXml_concat hd_concat_map last_concat_map escapeChar_not_Nil)
qed

lemma escapeXml_plain:
  "plainText s \<Longrightarrow> trim (escapeXml (Some s)) = escapeXml (Some s) \<and> list_all dotChar (escapeXml (Some s))"
  by (simp add: plainText_def escapeXml_trim escapeXml_dotChar)

lemma escapeXml_inert:
  "(\<And>c. eq (CHR ''<'') c \<Longrightarrow> c = CHR ''<'') \<Longrightarrow> inert eq (CHR ''<'' # ps) (escapeXml (Some s))"
  using escapeXml_no_lt [of s] by (intro inert_no_head) auto

lemma eqNoCase_lt: "eqNoCase (CHR ''<'') c \<longleftrightarrow> c = CHR ''<''"
  by (cases c) (auto simp: eqNoCase_def canonicalize_Char split: if_splits)

section \<open>Joined texts\<close>

lemma featureToXml_body:
  "featureToXml f ''  '' = ''    '' @ ''<feature>'' @ featureBody f @ ''</feature>''"
  by (simp add: featureToXml_def featureBody_def locationsXml_def locationsBody_def Let_def
      split: option.splits)

lemma eqCase_refl: "eqCase c c"
  by (simp add: eqCase_def)

lemma eqCase_lt: "eqCase (CHR ''<'') c \<Longrightarrow> c = CHR ''<''"
  by (simp add: eqCase_def)

lemma join_Cons: "xs \<noteq> [] \<Longrightarrow> join sep (x # xs) = x @ sep @ join sep xs"
  by (cases xs) simp_all

lemma inert_join:
  "inert eq pat sep \<Longrightarrow> (\<And>x. x \<in> set xs \<Longrightarrow> inert eq pat x) \<Longrightarrow> inert eq pat (join sep xs)"
proof (induction xs)
  case Nil
  show ?case by simp
next
  case (Cons x xs)
  show ?case
  proof (cases "xs = []")
    case True
    then show ?thesis using Cons.prems by simp
  next
    case False
    then show ?thesis using Cons by (simp add: join_Cons inert_append)
  qed
qed

lemma regex_matchAll_join:
  assumes "\<And>c. eq c c" and "op \<noteq> []" and "cl \<noteq> []"
    and "inert eq op sep" and "inert eq op pre" and "inert eq op tail"
    and "\<And>x. x \<in> set xs \<Longrightarrow> inert eq cl (body x) \<and> list_all ok (body x)"
  shows "regex_matchAll eq ok op cl (sep @ join sep (map (\<lambda>x. pre @ op @ body x @ cl) xs) @ tail)
       = map body xs"
  using assms(7)
proof (induction xs)
  case Nil
  have "inert eq op (sep @ tail)" using assms(4,6) by (rule inert_append)
  then show ?case using assms(2) by (simp add: regex_matchAll_inert)
next
  case (Cons x xs)
  let ?g = "\<lambda>x. pre @ op @ body x @ cl"
  have a: "inert eq op (sep @ pre)" using assms(4,5) by (rule inert_append)
  have x: "inert eq cl (body x)" "list_all ok (body x)" using Cons.prems by simp_all
  show ?case
  proof (cases "xs = []")
    case True
    have "regex_matchAll eq ok op cl ((sep @ pre) @ op @ body x @ cl @ tail)
        = body x # regex_matchAll eq ok op cl tail"
      using assms(1) a x assms(2,3) by (rule regex_matchAll_found)
    then show ?thesis using True assms(2,6) by (simp add: regex_matchAll_inert)
  next
    case False
    let ?rest = "sep @ join sep (map ?g xs) @ tail"
    have "regex_matchAll eq ok op cl ((sep @ pre) @ op @ body x @ cl @ ?rest)
        = body x # regex_matchAll eq ok op cl ?rest"
      using assms(1) a x assms(2,3) by (rule regex_matchAll_found)
    moreover have "regex_matchAll eq ok op cl ?rest = map body xs"
      using Cons.prems by (intro Cons.IH) simp
    ultimately show ?thesis using False by (simp add: join_Cons)
  qed
qed

section \<open>Reading back the text of one feature\<close>

lemmas inert_eval = inert.simps compatible.simps eqCase_def eqNoCase_def canonicalize_Char

lemma escapeXml_inert_case: "inert eqCase (CHR ''<'' # ps) (escapeXml (Some s))"
  by (rule escapeXml_inert) (simp add: eqCase_def)

lemma escapeXml_inert_eq: "inert (=) (CHR ''<'' # ps) (escapeXml (Some s))"
  by (rule escapeXml_inert) simp

lemma escapeXml_inert_nocase: "inert eqNoCase (CHR ''<'' # ps) (escapeXml (Some s))"
  by (rule escapeXml_inert) (simp add: eqNoCase_lt)

lemma name_read:
  assumes "list_all dotChar (escapeXml (Some (name f)))"
  shows "regex_exec eqCase dotChar ''<name>'' ''</name>'' (featureBody f)
       = Some (length ''\<newline>      '', escapeXml (Some (name f)))"
  unfolding featureBody_def
  by (rule regex_exec_found)
     (simp_all add: inert_eval escapeXml_inert_case assms)

lemma description_read:
  assumes "list_all dotChar (escapeXml (Some (description f)))"
  shows "\<exists>i. regex_exec eqCase dotChar ''<description>'' ''</description>'' (featureBody f)
       = Some (i, escapeXml (Some (description f)))"
proof -
  let ?a = "''\<newline>      '' @ ''<name>'' @ escapeXml (Some (name f)) @ ''</name>'' @ ''\<newline>      ''"
  let ?rest = "locationsXml f @ ''\<newline>    ''"
  have shape: "featureBody f =
      ?a @ ''<description>'' @ escapeXml (Some (description f)) @ ''</description>'' @ ?rest"
    by (simp add: featureBody_def)
  have a: "inert eqCase ''<description>'' ?a"
    by (intro inert_append escapeXml_inert_case) (simp_all add: inert_eval)
  have "regex_exec eqCase dotChar ''<description>'' ''</description>'' (featureBody f)
      = Some (length ?a, escapeXml (Some (description f)))"
    unfolding shape using eqCase_refl a
    by (rule regex_exec_found) (simp_all add: escapeXml_inert_case assms)
  then show ?thesis ..
qed

lemma locationsBody_inert: "inert eqNoCase ''</file_locations>'' (locationsBody locs)"
  unfolding locationsBody_def locationToXml_def
  by (intro inert_append inert_join escapeXml_inert_nocase) (auto simp: inert_eval intro!: inert_append escapeXml_inert_nocase)

lemma locations_read_None:
  assumes "locationsXml f = []"
  shows "extractXmlSection (featureBody f) ''file_locations'' = None"
proof -
  have "inert eqNoCase ''<file_locations>'' (featureBody f)"
    unfolding featureBody_def assms
    by (intro inert_append escapeXml_inert_nocase) (simp_all add: inert_eval)
  then have "regex_exec eqNoCase anyChar ''<file_locations>'' ''</file_locations>'' (featureBody f) = None"
    by (rule regex_exec_None) simp
  then show ?thesis by (simp add: extractXmlSection_def)
qed

lemma locations_read_Some:
  assumes "file_locations f = Some locs" and "locs \<noteq> []"
  shows "extractXmlSection (featureBody f) ''file_locations'' = Some (locationsBody locs)"
proof -
  let ?a = "''\<newline>      '' @ ''<name>'' @ escapeXml (Some (name f)) @ ''</name>''
     @ ''\<newline>      '' @ ''<description>'' @ escapeXml (Some (description f)) @ ''</description>''
     @ ''\<newline>      ''"
  have shape: "featureBody f =
      ?a @ ''<file_locations>'' @ locationsBody locs @ ''</file_locations>'' @ ''\<newline>    ''"
    using assms by (simp add: featureBody_def locationsXml_def)
  have a: "inert eqNoCase ''<file_locations>'' ?a"
    by (intro inert_append escapeXml_inert_nocase) (simp_all add: inert_eval)
  have "regex_exec eqNoCase anyChar ''<file_locations>'' ''</file_locations>'' (featureBody f)
      = Some (length ?a, locationsBody locs)"
    unfolding shape using eqNoCase_refl a locationsBody_inert
    by (rule regex_exec_found) (simp_all add: list_all_iff anyChar_def)
  then show ?thesis by (simp add: extractXmlSection_def)
qed

lemma locations_elements:
  assumes "list_all plainText locs"
  shows "extractXmlElements (locationsBody locs) ''location'' = locs"
proof -
  have body: "inert eqCase ''</location>'' (escapeXml (Some x)) \<and> list_all dotChar (escapeXml (Some x))"
    if "x \<in> set locs" for x
  proof -
    have "plainText x" using that assms by (simp add: list_all_iff)
    then show ?thesis by (simp add: escapeXml_inert_case escapeXml_plain)
  qed
  have "regex_matchAll eqCase dotChar ''<location>'' ''</location>''
      (''\<newline>'' @ join ''\<newline>''
         (map (\<lambda>x. ''        '' @ ''<location>'' @ escapeXml (Some x) @ ''</location>'') locs)
       @ ''\<newline>      '')
      = map (\<lambda>x. escapeXml (Some x)) locs"
    using eqCase_refl
    by (rule regex_matchAll_join) (simp_all add: inert_eval body escapeXml_inert_eq)
  then have "regex_matchAll eqCase dotChar ''<location>'' ''</location>'' (locationsBody locs)
      = map (\<lambda>x. escapeXml (Some x)) locs"
    by (simp add: locationsBody_def locationToXml_def [abs_def])
  then have "extractXmlElements (locationsBody locs) ''location''
      = map (\<lambda>x. unescapeXml (trim (escapeXml (Some x)))) locs"
    by (simp add: extractXmlElements_def comp_def)
  also have "\<dots> = map (\<lambda>x. x) locs"
    using assms by (intro map_cong) (auto simp: list_all_iff escapeXml_plain unescapeXml_escapeXml)
  finally show ?thesis by simp
qed

lemma locationsBody_not_Nil: "locationsBody locs \<noteq> []"
  by (simp add: locationsBody_def)

lemma parseFeature_featureBody:
  assumes "cleanFeature f"
  shows "parseFeature (featureBody f) = Some f"
proof -
  from assms have n: "name f \<noteq> []" "plainText (name f)" and d: "plainText (description f)"
    by (simp_all add: cleanFeature_def)
  have 1: "regex_exec eqCase dotChar ''<name>'' ''</name>'' (featureBody f)
       = Some (length ''\<newline>      '', escapeXml (Some (name f)))"
    using n by (intro name_read) (simp add: escapeXml_plain)
  obtain i where 2: "regex_exec eqCase dotChar ''<description>'' ''</description>'' (featureBody f)
       = Some (i, escapeXml (Some (description f)))"
    using description_read [of f] d by (auto simp: escapeXml_plain)
  have n': "unescapeXml (trim (escapeXml (Some (name f)))) = name f"
    using n by (simp add: escapeXml_plain unescapeXml_escapeXml)
  have d': "unescapeXml (trim (escapeXml (Some (description f)))) = description f"
    using d by (simp add: escapeXml_plain unescapeXml_escapeXml)
  show ?thesis
  proof (cases "file_locations f")
    case None
    then have "extractXmlSection (featureBody f) ''file_locations'' = None"
      by (intro locations_read_None) (simp add: locationsXml_def)
    then show ?thesis using 1 2 n n' d' None
      by (simp add: parseFeature_def del: regex_exec.simps)
  next
    case (Some locs)
    then have locs: "locs \<noteq> []" "list_all plainText locs"
      using assms by (simp_all add: cleanFeature_def)
    have "extractXmlSection (featureBody f) ''file_locations'' = Some (locationsBody locs)"
      using Some locs(1) by (rule locations_read_Some)
    then show ?thesis using 1 2 n n' d' Some locs locations_elements [OF locs(2)]
      by (simp add: parseFeature_def locationsBody_not_Nil del: regex_exec.simps)
  qed
qed

section \<open>Reading the features\<close>

lemma pushFeatures_map_filter:
  "pushFeatures ms acc = acc @ List.map_filter parseFeature ms"
  by (induction ms arbitrary: acc) (auto simp: List.map_filter_simps split: option.splits)




section \<open>Reading back the text of a section\<close>

lemma matches_at_append_mono: "matches_at eq pat a \<Longrightarrow> matches_at eq pat (a @ b)"
  by (induction eq pat a rule: matches_at.induct) auto

lemma search_append_Some:
  "search eq pat a = Some i \<Longrightarrow> search eq pat (a @ b) = Some i"
proof (induction a arbitrary: i)
  case Nil
  then show ?case by (cases b) (auto split: if_splits)
next
  case (Cons c a)
  show ?case
  proof (cases "matches_at eq pat (c # a)")
    case True
    then have "matches_at eq pat ((c # a) @ b)" by (rule matches_at_append_mono)
    then show ?thesis using True Cons.prems by simp
  next
    case False
    then obtain i' where i': "search eq pat a = Some i'" "i = Suc i'"
      using Cons.prems by auto
    have "length pat \<le> length (c # a)"
      using search_Some_bound [OF i'(1)] by simp
    then have "matches_at eq pat ((c # a) @ b) = matches_at eq pat (c # a)"
      by (rule matches_at_append)
    then show ?thesis using False i' Cons.IH [OF i'(1)] by simp
  qed
qed

lemma pushFeatures_featureBody:
  "list_all cleanFeature F \<Longrightarrow> pushFeatures (map featureBody F) acc = acc @ F"
  by (induction F arbitrary: acc) (simp_all add: parseFeature_featureBody)

lemma locationsXml_inert_nocase:
  "inert eqNoCase ''</implemented_features>'' (locationsXml f)"
  unfolding locationsXml_def locationsBody_def locationToXml_def
  by (auto split: option.splits simp: inert_eval
      intro!: inert_append inert_join escapeXml_inert_nocase)

lemma featureBody_inert_nocase:
  "inert eqNoCase ''</implemented_features>'' (featureBody f)"
  unfolding featureBody_def
  by (intro inert_append escapeXml_inert_nocase locationsXml_inert_nocase) (simp_all add: inert_eval)

lemma locationsXml_inert_case:
  "inert eqCase ''</feature>'' (locationsXml f)"
  unfolding locationsXml_def locationsBody_def locationToXml_def
  by (auto split: option.splits simp: inert_eval escapeXml_inert_eq
      intro!: inert_append inert_join escapeXml_inert_case)

lemma featureBody_inert_case:
  "inert eqCase ''</feature>'' (featureBody f)"
  unfolding featureBody_def
  by (intro inert_append escapeXml_inert_case locationsXml_inert_case)
     (simp_all add: inert_eval)

lemma newSectionOf_body: "newSectionOf F = sectionOpen @ sectionBody F @ sectionClose"
  by (simp add: newSectionOf_def sectionOpen_def sectionClose_def sectionBody_def)

lemma sectionBody_join:
  "sectionBody F =
     ''\<newline>'' @ join ''\<newline>'' (map (\<lambda>f. ''    '' @ ''<feature>'' @ featureBody f @ ''</feature>'') F)
     @ ''\<newline>  ''"
  by (simp add: sectionBody_def featuresToXml_def featureToXml_body)

lemma sectionBody_inert: "inert eqNoCase sectionClose (sectionBody F)"
  unfolding sectionBody_join sectionClose_def
  by (intro inert_append inert_join) (auto simp: inert_eval intro!: inert_append featureBody_inert_nocase)

lemma sectionBody_features:
  "regex_matchAll eqCase anyChar ''<feature>'' ''</feature>'' (sectionBody F) = map featureBody F"
  unfolding sectionBody_join using eqCase_refl
  by (rule regex_matchAll_join)
     (simp_all add: inert_eval featureBody_inert_case [unfolded eqCase_def [abs_def]] list_all_iff anyChar_def)

lemma sectionBody_not_Nil: "sectionBody F \<noteq> []"
  by (simp add: sectionBody_def)

lemma section_tags: "''<'' @ ''implemented_features'' @ ''>'' = sectionOpen"
  "''</'' @ ''implemented_features'' @ ''>'' = sectionClose"
  by (simp_all add: sectionOpen_def sectionClose_def)

lemma map_filter_map: "List.map_filter f (map g xs) = List.map_filter (\<lambda>x. f (g x)) xs"
  by (induction xs) (simp_all split: option.splits)

lemma map_filter_Some: "(\<And>x. x \<in> set xs \<Longrightarrow> f x = Some x) \<Longrightarrow> List.map_filter f xs = xs"
  by (induction xs) simp_all

lemma extract_newSection_gen:
  assumes "search eqNoCase sectionOpen (pre @ sectionOpen) = Some (length pre)"
  shows "extractImplementedFeatures (pre @ newSectionOf F @ post)
       = List.map_filter (\<lambda>f. parseFeature (featureBody f)) F"
proof -
  let ?M = "sectionBody F"
  let ?doc = "pre @ newSectionOf F @ post"
  have doc: "?doc = (pre @ sectionOpen) @ (?M @ sectionClose @ post)"
    by (simp add: newSectionOf_body)
  have 1: "search eqNoCase sectionOpen ?doc = Some (length pre)"
    unfolding doc using assms by (rule search_append_Some)
  have "drop (length pre + length sectionOpen) ?doc = ?M @ sectionClose @ post"
    unfolding doc by simp
  moreover have "search eqNoCase sectionClose (?M @ sectionClose @ post) = Some (length ?M)"
    using eqNoCase_refl sectionBody_inert by (rule search_found)
  ultimately have "regex_exec eqNoCase anyChar sectionOpen sectionClose ?doc = Some (length pre, ?M)"
    using 1 by (simp add: regex_exec_search)
  then have "extractXmlSection ?doc ''implemented_features'' = Some ?M"
    unfolding extractXmlSection_def section_tags by simp
  then show ?thesis
    by (simp add: extractImplementedFeatures_def sectionBody_not_Nil sectionBody_features
        pushFeatures_map_filter map_filter_map)
qed

lemma map_filter_clean:
  "list_all cleanFeature F \<Longrightarrow> List.map_filter (\<lambda>f. parseFeature (featureBody f)) F = F"
  by (rule map_filter_Some) (simp add: list_all_iff parseFeature_featureBody)

lemma extract_newSection:
  assumes "list_all cleanFeature F"
    and "search eqNoCase sectionOpen (pre @ sectionOpen) = Some (length pre)"
  shows "extractImplementedFeatures (pre @ newSectionOf F @ post) = F"
  using extract_newSection_gen [OF assms(2)] map_filter_clean [OF assms(1)] by simp

section \<open>Writing and reading back\<close>

lemma getSubstitution_no_dollar:
  "CHR ''$'' \<notin> set rep \<Longrightarrow> getSubstitution m b a rep = rep"
  by (induction m b a rep rule: getSubstitution.induct) auto

lemma set_join: "set (join sep xs) \<subseteq> set sep \<union> \<Union> (set ` set xs)"
proof (induction xs)
  case Nil
  show ?case by simp
next
  case (Cons x xs)
  then show ?case by (cases xs) auto
qed

lemma not_in_join:
  "c \<notin> set sep \<Longrightarrow> (\<And>x. x \<in> set xs \<Longrightarrow> c \<notin> set x) \<Longrightarrow> c \<notin> set (join sep xs)"
  using set_join [of sep xs] by blast

lemma locationsXml_no_dollar:
  assumes "dollarFree f"
  shows "CHR ''$'' \<notin> set (locationsXml f)"
proof (cases "file_locations f")
  case None
  then show ?thesis by (simp add: locationsXml_def)
next
  case (Some locs)
  have "CHR ''$'' \<notin> set (join ''\<newline>'' (map (locationToXml ''        '') locs))"
  proof (rule not_in_join)
    show "CHR ''$'' \<notin> set ''\<newline>''" by simp
    fix x assume "x \<in> set (map (locationToXml ''        '') locs)"
    then obtain l where "l \<in> set locs" "x = locationToXml ''        '' l" by auto
    then show "CHR ''$'' \<notin> set x"
      using assms Some by (simp add: dollarFree_def list_all_iff locationToXml_def escapeXml_no_dollar)
  qed
  then show ?thesis using Some by (simp add: locationsXml_def locationsBody_def)
qed

lemma newSectionOf_no_dollar:
  assumes "list_all dollarFree F"
  shows "CHR ''$'' \<notin> set (newSectionOf F)"
proof -
  let ?g = "\<lambda>f. ''    '' @ ''<feature>'' @ featureBody f @ ''</feature>''"
  have "CHR ''$'' \<notin> set (join ''\<newline>'' (map ?g F))"
  proof (rule not_in_join)
    show "CHR ''$'' \<notin> set ''\<newline>''" by simp
    fix x assume "x \<in> set (map ?g F)"
    then obtain f where f: "f \<in> set F" "x = ?g f" by auto
    then have "dollarFree f" using assms by (simp add: list_all_iff)
    then show "CHR ''$'' \<notin> set x"
      using locationsXml_no_dollar [of f]
      by (simp add: f featureBody_def dollarFree_def escapeXml_no_dollar)
  qed
  then show ?thesis
    by (simp add: newSectionOf_body sectionBody_join sectionOpen_def sectionClose_def)
qed

lemma search_append_Some_rev:
  assumes "search eq pat (a @ b) = Some i" and "i + length pat \<le> length a"
  shows "search eq pat a = Some i"
proof -
  have "matches_at eq pat (drop i (a @ b))" using assms(1) by (rule search_Some_matches)
  moreover have "drop i (a @ b) = drop i a @ b" using assms(2) by simp
  moreover have "length pat \<le> length (drop i a)" using assms(2) by simp
  ultimately have "matches_at eq pat (drop i a)" by (simp add: matches_at_append)
  then obtain j where j: "search eq pat a = Some j" "j \<le> i"
    using search_exists [of eq pat i a] assms(2) by auto
  then have "search eq pat (a @ b) = Some j" by (intro search_append_Some)
  then show ?thesis using assms(1) j by simp
qed

lemma search_append_None: "search eq pat (a @ b) = None \<Longrightarrow> search eq pat a = None"
  using search_append_Some [of eq pat a _ b] by (cases "search eq pat a") auto

lemma matches_at_barrier:
  "list_all (\<lambda>p. \<not> eq p c) pat \<Longrightarrow> matches_at eq pat (a @ c # b) \<Longrightarrow> matches_at eq pat a"
  by (induction eq pat a rule: matches_at.induct) auto

lemma search_barrier:
  assumes "list_all (\<lambda>p. \<not> eq p c) pat" and "pat \<noteq> []"
  shows "search eq pat a = None \<Longrightarrow>
     search eq pat (a @ c # b) = map_option (\<lambda>j. length a + 1 + j) (search eq pat b)"
proof (induction a)
  case Nil
  have "\<not> matches_at eq pat (c # b)" using assms by (cases pat) auto
  then show ?case by (simp add: option.map_comp comp_def)
next
  case (Cons x a)
  then have n: "\<not> matches_at eq pat (x # a)" "search eq pat a = None"
    by (auto split: if_splits)
  then have "\<not> matches_at eq pat ((x # a) @ c # b)"
    using matches_at_barrier [where eq = eq and c = c, OF assms(1)] by blast
  then have "search eq pat ((x # a) @ c # b) = map_option Suc (search eq pat (a @ c # b))"
    by simp
  also have "\<dots> = map_option Suc (map_option (\<lambda>j. length a + 1 + j) (search eq pat b))"
    by (simp only: Cons.IH [OF n(2)])
  also have "\<dots> = map_option (\<lambda>j. length (x # a) + 1 + j) (search eq pat b)"
    by (simp add: option.map_comp comp_def)
  finally show ?case .
qed

lemma eqCase_imp_eqNoCase: "matches_at eqCase pat s \<Longrightarrow> matches_at eqNoCase pat s"
  by (induction eqCase pat s rule: matches_at.induct) (auto simp: eqCase_def eqNoCase_refl)

lemma barrier_newline: "list_all (\<lambda>p. \<not> eqNoCase p (CHR ''\<newline>'')) sectionOpen"
  by (simp add: sectionOpen_def eqNoCase_def canonicalize_Char)

lemma barrier_space: "list_all (\<lambda>p. \<not> eqNoCase p (CHR '' '')) sectionOpen"
  by (simp add: sectionOpen_def eqNoCase_def canonicalize_Char)

lemma sectionOpen_not_Nil: "sectionOpen \<noteq> []"
  by (simp add: sectionOpen_def)

lemma open_after_insert:
  assumes "search eqNoCase sectionOpen a = None"
  shows "search eqNoCase sectionOpen ((a @ ''\<newline>\<newline>  '') @ sectionOpen)
           = Some (length (a @ ''\<newline>\<newline>  ''))"
    and "search eqNoCase sectionOpen ((a @ ''  '') @ sectionOpen) = Some (length (a @ ''  ''))"
proof -
  have 1: "search eqNoCase sectionOpen (t @ sectionOpen @ []) = Some (length t)"
    if "inert eqNoCase sectionOpen t" for t
    using eqNoCase_refl that by (rule search_found)
  have "search eqNoCase sectionOpen (a @ CHR ''\<newline>'' # (''\<newline>  '' @ sectionOpen))
      = map_option (\<lambda>j. length a + 1 + j) (search eqNoCase sectionOpen (''\<newline>  '' @ sectionOpen))"
    using barrier_newline sectionOpen_not_Nil assms by (rule search_barrier)
  moreover have "inert eqNoCase sectionOpen ''\<newline>  ''"
    by (simp add: sectionOpen_def inert_eval)
  ultimately show "search eqNoCase sectionOpen ((a @ ''\<newline>\<newline>  '') @ sectionOpen)
      = Some (length (a @ ''\<newline>\<newline>  ''))"
    using 1 [of "''\<newline>  ''"] by simp
  have "search eqNoCase sectionOpen (a @ CHR '' '' # ('' '' @ sectionOpen))
      = map_option (\<lambda>j. length a + 1 + j) (search eqNoCase sectionOpen ('' '' @ sectionOpen))"
    using barrier_space sectionOpen_not_Nil assms by (rule search_barrier)
  moreover have "inert eqNoCase sectionOpen '' ''"
    by (simp add: sectionOpen_def inert_eval)
  ultimately show "search eqNoCase sectionOpen ((a @ ''  '') @ sectionOpen) = Some (length (a @ ''  ''))"
    using 1 [of "'' ''"] by simp
qed

lemma update_shape:
  assumes wf: "sectionWellFormed d" and ins: "hasInsertionPoint d"
    and dollar: "regex_test eqCase anyChar sectionOpen sectionClose d \<Longrightarrow> list_all dollarFree F"
  shows "\<exists>pre post.
           updateImplementedFeaturesSection d F = pre @ newSectionOf F @ post
           \<and> search eqNoCase sectionOpen (pre @ sectionOpen) = Some (length pre)"
proof (cases "regex_exec eqCase anyChar sectionOpen sectionClose d")
  case (Some m)
  obtain i cap where m: "m = (i, cap)" by (cases m)
  let ?n = "match_length sectionOpen sectionClose cap"
  have test: "regex_test eqCase anyChar sectionOpen sectionClose d"
    using Some by (simp add: regex_test_def)
  have i: "search eqCase sectionOpen d = Some i"
    using Some m by (auto simp: regex_exec_search split: option.splits)
  have il: "i + length sectionOpen \<le> length d" using i by (rule search_Some_bound)
  have "matches_at eqNoCase sectionOpen (drop i d)"
    using search_Some_matches [OF i] by (rule eqCase_imp_eqNoCase)
  then obtain j where "search eqNoCase sectionOpen d = Some j"
    using search_exists [of eqNoCase sectionOpen i d] il by auto
  then have ci: "search eqNoCase sectionOpen d = Some i"
    using wf i by (simp add: sectionWellFormed_def)
  have t: "take (length sectionOpen) (drop i d) = sectionOpen"
    using search_Some_matches [OF i] by (rule matches_at_eqCase_take)
  have ti: "take (i + length sectionOpen) d = take i d @ sectionOpen"
    by (simp add: take_add t)
  have "search eqNoCase sectionOpen
      (take (i + length sectionOpen) d @ drop (i + length sectionOpen) d) = Some i"
    using ci by simp
  then have "search eqNoCase sectionOpen (take (i + length sectionOpen) d) = Some i"
    by (rule search_append_Some_rev) (use il in simp)
  then have pre: "search eqNoCase sectionOpen (take i d @ sectionOpen) = Some (length (take i d))"
    using il unfolding ti by simp
  have "updateImplementedFeaturesSection d F = take i d @ newSectionOf F @ drop (i + ?n) d"
    using Some m test dollar
    by (simp add: updateImplementedFeaturesSection_def regex_replace_def Let_def
        getSubstitution_no_dollar newSectionOf_no_dollar)
  then show ?thesis using pre by blast
next
  case None
  then have test: "\<not> regex_test eqCase anyChar sectionOpen sectionClose d"
    by (simp add: regex_test_def)
  have ci: "search eqNoCase sectionOpen d = None"
  proof (rule ccontr)
    assume "search eqNoCase sectionOpen d \<noteq> None"
    then obtain i where "search eqNoCase sectionOpen d = Some i" by auto
    then have "search eqCase sectionOpen d = Some i"
      "search eqCase sectionClose (drop (i + length sectionOpen) d) \<noteq> None"
      using wf by (simp_all add: sectionWellFormed_def)
    then have "regex_exec eqCase anyChar sectionOpen sectionClose d \<noteq> None"
      by (auto simp: regex_exec_search)
    then show False using None by simp
  qed
  have no: "search eqNoCase sectionOpen (take q d) = None" for q
    using ci search_append_None [of eqNoCase sectionOpen "take q d" "drop q d"] by simp
  show ?thesis
  proof (cases "indexOf d coreCapabilitiesEnd")
    case (Some k)
    let ?q = "k + length coreCapabilitiesEnd"
    have "updateImplementedFeaturesSection d F
        = (take ?q d @ ''\<newline>\<newline>  '') @ newSectionOf F @ drop ?q d"
      using test Some by (simp add: updateImplementedFeaturesSection_def Let_def)
    then show ?thesis using open_after_insert(1) [OF no] by blast
  next
    case core: None
    show ?thesis
    proof (cases "indexOf d projectSpecEnd")
      case (Some k)
      have "updateImplementedFeaturesSection d F
          = (take k d @ ''  '') @ newSectionOf F @ (''\<newline>'' @ drop k d)"
        using test core Some by (simp add: updateImplementedFeaturesSection_def Let_def)
      then show ?thesis using open_after_insert(2) [OF no] by blast
    next
      case None
      then show ?thesis using ins test core by (simp add: hasInsertionPoint_def)
    qed
  qed
qed

lemma update_then_extract_gen:
  assumes "sectionWellFormed d" and "hasInsertionPoint d"
    and "regex_test eqCase anyChar sectionOpen sectionClose d \<Longrightarrow> list_all dollarFree F"
  shows "extractImplementedFeatures (updateImplementedFeaturesSection d F)
       = List.map_filter (\<lambda>f. parseFeature (featureBody f)) F"
proof -
  obtain pre post where "updateImplementedFeaturesSection d F = pre @ newSectionOf F @ post"
    and "search eqNoCase sectionOpen (pre @ sectionOpen) = Some (length pre)"
    using update_shape [OF assms] by blast
  then show ?thesis by (simp only: extract_newSection_gen)
qed

lemma update_then_extract:
  assumes F: "list_all cleanFeature F" and wf: "sectionWellFormed d" and ins: "hasInsertionPoint d"
    and dollar: "regex_test eqCase anyChar sectionOpen sectionClose d \<Longrightarrow> list_all dollarFree F"
  shows "extractImplementedFeatures (updateImplementedFeaturesSection d F) = F"
  using update_then_extract_gen [OF wf ins dollar] map_filter_clean [OF F] by simp

section \<open>What the parser returns\<close>

lemma lazy_until_ok: "lazy_until eq ok cl s = Some m \<Longrightarrow> list_all ok m"
  by (induction s arbitrary: m) (auto split: if_splits)

lemma regex_exec_ok: "regex_exec eq ok op cl s = Some (i, m) \<Longrightarrow> list_all ok m"
proof (induction s arbitrary: i)
  case Nil
  then show ?case by (auto simp: regex_at_def split: if_splits dest: lazy_until_ok)
next
  case (Cons c s)
  then show ?case
    by (auto simp: regex_at_def split: option.splits if_splits dest: lazy_until_ok)
qed

lemma regex_matchAll_ok:
  "m \<in> set (regex_matchAll eq ok op cl s) \<Longrightarrow> list_all ok m"
proof (induction eq ok op cl s rule: regex_matchAll.induct)
  case (1 eq ok op cl)
  then show ?case by simp
next
  case (2 eq ok op cl c s)
  show ?case
  proof (cases "regex_exec eq ok op cl (c # s)")
    case None
    then show ?thesis using "2.prems" by (simp del: regex_exec.simps)
  next
    case (Some r)
    obtain i cap where r: "r = (i, cap)" by (cases r)
    have "list_all ok cap" using Some r regex_exec_ok by blast
    moreover have "m = cap \<or> m \<in> set (regex_matchAll eq ok op cl (drop (i + match_length op cl cap - 1) s))"
      using "2.prems" Some r by (simp del: regex_exec.simps)
    ultimately show ?thesis using "2.IH" [OF Some r [symmetric]] by blast
  qed
qed

lemma set_replaceAll: "set (replaceAll pat rep s) \<subseteq> set s \<union> set rep"
proof (induction pat rep s rule: replaceAll.induct)
  case (1 pat rep)
  show ?case by simp
next
  case (2 pat rep c s)
  have "set (drop (length pat - 1) s) \<subseteq> set s" by (rule set_drop_subset)
  then show ?case using 2 by (auto split: if_splits)
qed

lemma replaceAll_hd:
  "s \<noteq> [] \<Longrightarrow> \<not> P (hd s) \<Longrightarrow> \<not> P r \<Longrightarrow> \<not> P (hd (replaceAll pat [r] s))"
  by (cases s) auto

lemma replaceAll_last:
  "s \<noteq> [] \<Longrightarrow> \<not> P (last s) \<Longrightarrow> \<not> P r \<Longrightarrow>
     replaceAll pat [r] s \<noteq> [] \<and> \<not> P (last (replaceAll pat [r] s))"
proof (induction pat "[r]" s rule: replaceAll.induct)
  case (1 pat)
  then show ?case by simp
next
  case (2 pat c s)
  show ?case
  proof (cases "matches_at eqCase pat (c # s)")
    case True
    let ?s2 = "drop (length pat - 1) s"
    show ?thesis
    proof (cases "?s2 = []")
      case Nil: True
      then show ?thesis using True "2.prems" by simp
    next
      case False
      then have "s \<noteq> []" "length pat - 1 < length s" by auto
      then have "last ?s2 = last (c # s)" by (simp add: last_drop)
      then show ?thesis using True False "2.prems" "2.hyps"(1) by auto
    qed
  next
    case False
    show ?thesis
    proof (cases "s = []")
      case True
      then show ?thesis using False "2.prems" by simp
    next
      case nonempty: False
      then show ?thesis using False "2.prems" "2.hyps"(2) by auto
    qed
  qed
qed

lemma replaceAll_trim:
  assumes "trim s = s" and "\<not> isWhiteSpace r"
  shows "trim (replaceAll pat [r] s) = replaceAll pat [r] s"
proof (cases "s = []")
  case True
  then show ?thesis by (simp add: trim_def)
next
  case False
  then have "\<not> isWhiteSpace (hd s)" "\<not> isWhiteSpace (last s)"
    using assms(1) by (simp_all add: trim_id_iff)
  then show ?thesis
    using False assms(2) replaceAll_hd [of s isWhiteSpace r pat] replaceAll_last [of s isWhiteSpace r pat]
    by (simp add: trim_id_iff)
qed

lemma replaceAll_dotChar:
  "list_all dotChar s \<Longrightarrow> list_all dotChar rep \<Longrightarrow> list_all dotChar (replaceAll pat rep s)"
  using set_replaceAll [of pat rep s] by (auto simp: list_all_iff)

lemma unescapeXml_plain:
  assumes "trim t = t" and "list_all dotChar t"
  shows "plainText (unescapeXml t)"
  unfolding plainText_def unescapeXml_def
  using assms
  by (auto intro!: replaceAll_trim replaceAll_dotChar simp: isWhiteSpace_def dotChar_def)

lemma parsed_text_plain: "list_all dotChar m \<Longrightarrow> plainText (unescapeXml (trim m))"
  by (intro unescapeXml_plain trim_trim list_all_trim)

lemma plainText_Nil: "plainText []"
  by (simp add: plainText_def trim_def)

lemma extractXmlElements_plain: "list_all plainText (extractXmlElements s tag)"
  unfolding extractXmlElements_def list_all_iff
  using regex_matchAll_ok parsed_text_plain by fastforce

lemma parseFeature_clean:
  assumes "parseFeature b = Some f"
  shows "cleanFeature f"
proof -
  have n: "name f \<noteq> []"
    and "name f = (case regex_exec eqCase dotChar ''<name>'' ''</name>'' b of
          Some (i, m) \<Rightarrow> unescapeXml (trim m) | None \<Rightarrow> [])"
    and "description f = (case regex_exec eqCase dotChar ''<description>'' ''</description>'' b of
          Some (i, m) \<Rightarrow> unescapeXml (trim m) | None \<Rightarrow> [])"
    and l: "file_locations f = None \<or>
      (\<exists>sec. file_locations f = Some (extractXmlElements sec ''location'')
         \<and> extractXmlElements sec ''location'' \<noteq> [])"
    using assms
    by (auto simp: parseFeature_def Let_def split: if_splits option.splits
        simp del: regex_exec.simps)
  then have "plainText (name f)" "plainText (description f)"
    by (auto split: option.splits intro!: parsed_text_plain plainText_Nil dest: regex_exec_ok
        simp del: regex_exec.simps)
  then show ?thesis using n l extractXmlElements_plain
    by (auto simp: cleanFeature_def)
qed

lemma pushFeatures_clean:
  "list_all cleanFeature acc \<Longrightarrow> list_all cleanFeature (pushFeatures ms acc)"
  by (induction ms arbitrary: acc) (auto split: option.splits dest: parseFeature_clean)

lemma extract_clean: "list_all cleanFeature (extractImplementedFeatures d)"
  by (simp add: extractImplementedFeatures_def pushFeatures_clean split: option.splits)

section \<open>The name that is read back\<close>

lemma lazy_until_blocked:
  assumes "inert eq cl t" and "list_all ok t" and "\<not> ok c" and "\<not> matches_at eq cl (c # r)"
  shows "lazy_until eq ok cl (t @ c # r) = None"
  using lazy_until_inert [OF assms(1,2), of "c # r"] assms(3,4) by simp

lemma regex_exec_blocked:
  assumes "inert eq op a" and "matches_at eq op (c # s)"
    and "lazy_until eq ok cl (drop (length op) (c # s)) = None"
    and "inert eq op s" and "op \<noteq> []"
  shows "regex_exec eq ok op cl (a @ c # s) = None"
proof -
  have "regex_exec eq ok op cl s = None" using assms(4,5) by (rule regex_exec_None)
  then have "regex_exec eq ok op cl (c # s) = None"
    using assms(2,3) by (simp add: regex_at_def)
  then show ?thesis using regex_exec_inert [OF assms(1), of ok cl "c # s"] by simp
qed

lemma escapeXml_append:
  "escapeXml (Some (a @ b)) = escapeXml (Some a) @ escapeXml (Some b)"
  by (simp add: escapeXml_concat)

lemma escapeXml_not_dot:
  "\<not> dotChar c \<Longrightarrow> escapeXml (Some (c # s)) = c # escapeXml (Some s)"
  by (auto simp: escapeXml_concat escapeChar_def dotChar_def)

lemma locationsXml_inert_name: "inert eqCase ''<name>'' (locationsXml f)"
  unfolding locationsXml_def locationsBody_def locationToXml_def
  by (auto split: option.splits simp: inert_eval escapeXml_inert_eq
      intro!: inert_append inert_join escapeXml_inert_case)

lemma name_not_read:
  assumes "\<not> list_all dotChar (name f)"
  shows "regex_exec eqCase dotChar ''<name>'' ''</name>'' (featureBody f) = None"
proof -
  let ?n1 = "takeWhile dotChar (name f)"
  let ?n2 = "dropWhile dotChar (name f)"
  have "?n2 \<noteq> []" using assms by (simp add: list_all_iff)
  then obtain c n3 where n2: "?n2 = c # n3" by (cases ?n2) auto
  then have c: "\<not> dotChar c" by (metis hd_dropWhile list.sel(1) list.distinct(1))
  have n: "name f = ?n1 @ c # n3" using n2 by (metis takeWhile_dropWhile_id)
  let ?e1 = "escapeXml (Some ?n1)"
  let ?r = "escapeXml (Some n3) @ ''</name>'' @ ''\<newline>      '' @ ''<description>''
     @ escapeXml (Some (description f)) @ ''</description>'' @ locationsXml f @ ''\<newline>    ''"
  have e: "escapeXml (Some (name f)) = ?e1 @ c # escapeXml (Some n3)"
    by (subst n) (simp add: escapeXml_append escapeXml_not_dot c)
  have body: "featureBody f = ''\<newline>      '' @ CHR ''<'' # (''name>'' @ ?e1 @ c # ?r)"
    by (simp add: featureBody_def e)
  have 1: "list_all dotChar ?e1"
    by (intro escapeXml_dotChar) (auto simp: list_all_iff dest: set_takeWhileD)
  have 2: "\<not> matches_at eqCase ''</name>'' (c # ?r)"
    using c by (auto simp: eqCase_def dotChar_def)
  have "lazy_until eqCase dotChar ''</name>'' (?e1 @ c # ?r) = None"
    using escapeXml_inert_case 1 c 2 by (rule lazy_until_blocked)
  then have 3: "lazy_until eqCase dotChar ''</name>''
      (drop (length ''<name>'') (CHR ''<'' # (''name>'' @ ?e1 @ c # ?r))) = None"
    by simp
  have 4: "inert eqCase ''<name>'' (''name>'' @ ?e1 @ c # ?r)"
  proof -
    have "inert eqCase ''<name>'' [c]" using c by (auto simp: inert_eval dotChar_def)
    then have "inert eqCase ''<name>'' ([c] @ ?r)"
      by (intro inert_append escapeXml_inert_case locationsXml_inert_name)
         (simp_all add: inert_eval)
    then show ?thesis
      by (intro inert_append escapeXml_inert_case) (simp_all add: inert_eval)
  qed
  show ?thesis
    unfolding body
    by (rule regex_exec_blocked [OF _ _ 3 4]) (simp_all add: inert_eval)
qed

lemma parseFeature_name_None:
  assumes "name f = [] \<or> \<not> list_all dotChar (name f)"
  shows "parseFeature (featureBody f) = None"
proof (cases "list_all dotChar (name f)")
  case True
  then have "name f = []" using assms by simp
  moreover have "regex_exec eqCase dotChar ''<name>'' ''</name>'' (featureBody f)
       = Some (length ''\<newline>      '', escapeXml (Some (name f)))"
    using True by (intro name_read escapeXml_dotChar)
  ultimately show ?thesis
    by (simp add: parseFeature_def escapeXml_concat trim_def unescapeXml_def
        del: regex_exec.simps)
next
  case False
  then show ?thesis using name_not_read [of f]
    by (simp add: parseFeature_def del: regex_exec.simps)
qed

lemma parseFeature_name_Some:
  assumes "name f \<noteq> []" and "plainText (name f)"
  shows "\<exists>g. parseFeature (featureBody f) = Some g \<and> name g = name f"
proof -
  have "regex_exec eqCase dotChar ''<name>'' ''</name>'' (featureBody f)
       = Some (length ''\<newline>      '', escapeXml (Some (name f)))"
    using assms(2) by (intro name_read) (simp add: escapeXml_plain)
  moreover have "unescapeXml (trim (escapeXml (Some (name f)))) = name f"
    using assms(2) by (simp add: escapeXml_plain unescapeXml_escapeXml)
  ultimately show ?thesis using assms(1)
    by (simp add: parseFeature_def Let_def del: regex_exec.simps)
qed

section \<open>Updating a document that holds a written section\<close>

lemma compatible_mono:
  "(\<And>p c. eq p c \<Longrightarrow> eq' p c) \<Longrightarrow> compatible eq pat t \<Longrightarrow> compatible eq' pat t"
  by (induction eq pat t rule: compatible.induct) auto

lemma inert_mono:
  "(\<And>p c. eq p c \<Longrightarrow> eq' p c) \<Longrightarrow> inert eq' pat t \<Longrightarrow> inert eq pat t"
proof (induction t)
  case Nil
  show ?case by simp
next
  case (Cons c t)
  then show ?case using compatible_mono [of eq eq' pat "c # t"] by auto
qed

lemma eqCase_eqNoCase: "eqCase p c \<Longrightarrow> eqNoCase p c"
  by (simp add: eqCase_def eqNoCase_def)

lemma search_case_of_nocase:
  assumes "search eqNoCase pat s = Some i" and "matches_at eqCase pat (drop i s)"
  shows "search eqCase pat s = Some i"
proof -
  have i: "i \<le> length s" using assms(1) by (rule search_Some_le)
  then obtain j where j: "search eqCase pat s = Some j" "j \<le> i"
    using search_exists [OF assms(2)] by blast
  have "matches_at eqNoCase pat (drop j s)"
    using search_Some_matches [OF j(1)] by (rule eqCase_imp_eqNoCase)
  then obtain k where "search eqNoCase pat s = Some k" "k \<le> j"
    using search_exists [of eqNoCase pat j s] j(2) i by auto
  then show ?thesis using assms(1) j by simp
qed

lemma update_written:
  assumes "search eqNoCase sectionOpen (pre @ sectionOpen) = Some (length pre)"
    and "list_all dollarFree X"
  shows "updateImplementedFeaturesSection (pre @ newSectionOf F @ post) X = pre @ newSectionOf X @ post"
proof -
  let ?M = "sectionBody F"
  let ?doc = "pre @ newSectionOf F @ post"
  have doc: "?doc = (pre @ sectionOpen) @ (?M @ sectionClose @ post)"
    by (simp add: newSectionOf_body)
  have "search eqNoCase sectionOpen ?doc = Some (length pre)"
    unfolding doc using assms(1) by (rule search_append_Some)
  moreover have "matches_at eqCase sectionOpen (drop (length pre) ?doc)"
    unfolding doc using matches_at_refl [of eqCase sectionOpen] by (simp add: eqCase_refl)
  ultimately have 1: "search eqCase sectionOpen ?doc = Some (length pre)"
    by (rule search_case_of_nocase)
  have 2: "drop (length pre + length sectionOpen) ?doc = ?M @ sectionClose @ post"
    unfolding doc by simp
  have "inert eqCase sectionClose ?M"
    using eqCase_eqNoCase sectionBody_inert by (rule inert_mono)
  then have 3: "search eqCase sectionClose (?M @ sectionClose @ post) = Some (length ?M)"
    using eqCase_refl by (intro search_found)
  have ex: "regex_exec eqCase anyChar sectionOpen sectionClose ?doc = Some (length pre, ?M)"
    using 1 2 3 by (simp add: regex_exec_search)
  have n: "length pre + match_length sectionOpen sectionClose ?M = length (pre @ newSectionOf F)"
    by (simp add: match_length_def newSectionOf_body)
  have 4: "drop (length pre + match_length sectionOpen sectionClose ?M) ?doc = post"
    unfolding n by simp
  show ?thesis
    using ex 4 assms(2)
    by (simp add: updateImplementedFeaturesSection_def regex_test_def regex_replace_def Let_def
        getSubstitution_no_dollar newSectionOf_no_dollar del: regex_exec.simps)
qed

section \<open>The wrappers\<close>

lemma update_no_insertion:
  "\<not> hasInsertionPoint d \<Longrightarrow> updateImplementedFeaturesSection d F = d"
  by (simp add: hasInsertionPoint_def updateImplementedFeaturesSection_def)

lemma extract_section_test:
  assumes "sectionWellFormed d" and "extractImplementedFeatures d \<noteq> []"
  shows "regex_test eqCase anyChar sectionOpen sectionClose d"
proof -
  have "regex_exec eqNoCase anyChar sectionOpen sectionClose d \<noteq> None"
    using assms(2)
    by (auto simp: extractImplementedFeatures_def extractXmlSection_def sectionOpen_def
        sectionClose_def split: option.splits)
  then obtain i where "search eqNoCase sectionOpen d = Some i"
    by (auto simp: regex_exec_search split: option.splits)
  then have "search eqCase sectionOpen d = Some i"
    "search eqCase sectionClose (drop (i + length sectionOpen) d) \<noteq> None"
    using assms(1) by (simp_all add: sectionWellFormed_def)
  then show ?thesis by (auto simp: regex_test_def regex_exec_search)
qed

lemma sameName_self: "sameName (name f) f"
  by (simp add: sameName_def)

lemma length_filter_eq_iff: "length (filter P xs) = length xs \<longleftrightarrow> \<not> list_ex (\<lambda>x. \<not> P x) xs"
proof -
  have "length (filter P xs) + length (filter (\<lambda>x. \<not> P x) xs) = length xs"
    by (rule sum_length_filter_compl)
  then have "length (filter P xs) = length xs \<longleftrightarrow> filter (\<lambda>x. \<not> P x) xs = []"
    by auto
  then show ?thesis by (simp add: filter_empty_conv list_ex_iff)
qed

section \<open>The function and the policy\<close>

text \<open>The function takes the first applicable rule of the policy, and writes what the
  policy writes whenever no section is replaced or the new section holds no \<open>$\<close>.\<close>

lemma update_section_policy_plain:
  assumes "sectionSpan d = None \<or> CHR ''$'' \<notin> set (newSectionOf F)"
  shows "updateImplementedFeaturesSection d F = sectionPolicy d F"
proof (cases "sectionSpan d")
  case None
  then have "regex_exec eqCase anyChar sectionOpen sectionClose d = None"
    by (auto simp: sectionSpan_def indexOf_def regex_exec_search split: option.splits)
  then show ?thesis using None
    by (simp add: updateImplementedFeaturesSection_def sectionPolicy_def regex_test_def Let_def
        split: option.splits)
next
  case (Some span)
  obtain i e where span: "span = (i, e)" by (cases span)
  from Some span obtain j where
    i: "search eqCase sectionOpen d = Some i" and
    j: "search eqCase sectionClose (drop (i + length sectionOpen) d) = Some j" and
    e: "e = i + length sectionOpen + j + length sectionClose"
    by (auto simp: sectionSpan_def indexOf_def split: option.splits)
  have ex: "regex_exec eqCase anyChar sectionOpen sectionClose d
      = Some (i, take j (drop (i + length sectionOpen) d))"
    using i j by (simp add: regex_exec_search)
  have "j + length sectionClose \<le> length (drop (i + length sectionOpen) d)"
    using search_Some_bound [OF j] by simp
  then have len: "length (take j (drop (i + length sectionOpen) d)) = j" by simp
  have n: "match_length sectionOpen sectionClose (take j (drop (i + length sectionOpen) d)) = e - i"
    unfolding match_length_def len e by simp
  have ie: "i + (e - i) = e" using e by simp
  have free: "CHR ''$'' \<notin> set (newSectionOf F)" using assms Some by simp
  have "updateImplementedFeaturesSection d F =
      take i d @ getSubstitution (take (e - i) (drop i d)) (take i d) (drop (i + (e - i)) d)
        (newSectionOf F) @ drop (i + (e - i)) d"
    using ex n
    by (simp add: updateImplementedFeaturesSection_def regex_test_def regex_replace_def Let_def)
  moreover have "sectionPolicy d F = take i d @ newSectionOf F @ drop e d"
    using Some span by (simp add: sectionPolicy_def)
  ultimately show ?thesis unfolding ie using getSubstitution_no_dollar [OF free] by simp
qed

section \<open>Scanning a document with an inserted section\<close>

lemma regex_exec_Nil: "op \<noteq> [] \<Longrightarrow> regex_exec eq ok op cl [] = None"
  by (cases op) (simp_all add: regex_at_def)

lemma regex_matchAll_exec:
  assumes "regex_exec eq ok op cl s = Some (i, cap)" and "op \<noteq> []"
  shows "regex_matchAll eq ok op cl s
       = cap # regex_matchAll eq ok op cl (drop (i + match_length op cl cap) s)"
proof (cases s)
  case Nil
  then show ?thesis using assms regex_exec_Nil [of op eq ok cl] by simp
next
  case (Cons c s')
  have "0 < i + match_length op cl cap" using assms(2) by (simp add: match_length_def)
  then have "drop (i + match_length op cl cap - 1) s' = drop (i + match_length op cl cap) s"
    unfolding Cons by (simp add: drop_Cons')
  then show ?thesis using assms(1) unfolding Cons by (simp del: regex_exec.simps)
qed

lemma regex_matchAll_None:
  "regex_exec eq ok op cl s = None \<Longrightarrow> regex_matchAll eq ok op cl s = []"
  by (cases s) (simp_all del: regex_exec.simps)

lemma regex_exec_drop:
  "regex_exec eq ok op cl s = Some (i, cap) \<Longrightarrow> p \<le> i \<Longrightarrow>
     regex_exec eq ok op cl (drop p s) = Some (i - p, cap)"
proof (induction p arbitrary: s i)
  case 0
  then show ?case by simp
next
  case (Suc p)
  show ?case
  proof (cases s)
    case Nil
    then show ?thesis using Suc.prems by auto
  next
    case (Cons c s')
    have "regex_exec eq ok op cl s' = Some (i - 1, cap)"
      using Suc.prems unfolding Cons by (auto split: option.splits)
    then have "regex_exec eq ok op cl (drop p s') = Some (i - 1 - p, cap)"
      using Suc.prems(2) by (intro Suc.IH) simp_all
    then show ?thesis unfolding Cons by simp
  qed
qed

lemma regex_matchAll_drop:
  assumes "regex_exec eq ok op cl s = Some (i, cap)" and "p \<le> i" and "op \<noteq> []"
  shows "regex_matchAll eq ok op cl (drop p s) = regex_matchAll eq ok op cl s"
proof -
  have "regex_matchAll eq ok op cl (drop p s)
      = cap # regex_matchAll eq ok op cl (drop (i - p + match_length op cl cap) (drop p s))"
    using regex_exec_drop [OF assms(1,2)] assms(3) by (rule regex_matchAll_exec)
  moreover have "drop (i - p + match_length op cl cap) (drop p s) = drop (i + match_length op cl cap) s"
    using assms(2) by (simp add: add.commute add.left_commute)
  ultimately show ?thesis using regex_matchAll_exec [OF assms(1,3)] by simp
qed

lemma regex_exec_parts:
  assumes "regex_exec eq anyChar op cl s = Some (i, cap)"
  shows "search eq op s = Some i"
    and "search eq cl (drop (i + length op) s) = Some (length cap)"
    and "cap = take (length cap) (drop (i + length op) s)"
    and "i + match_length op cl cap \<le> length s"
proof -
  from assms obtain j where i: "search eq op s = Some i"
    and j: "search eq cl (drop (i + length op) s) = Some j"
    and cap: "cap = take j (drop (i + length op) s)"
    by (auto simp: regex_exec_search split: option.splits)
  have b: "j + length cl \<le> length (drop (i + length op) s)" using j by (rule search_Some_bound)
  then have len: "length cap = j" unfolding cap by simp
  show "search eq op s = Some i" by (rule i)
  show "search eq cl (drop (i + length op) s) = Some (length cap)" unfolding len by (rule j)
  show "cap = take (length cap) (drop (i + length op) s)" unfolding len by (rule cap)
  have "i + length op \<le> length s" using i by (rule search_Some_bound)
  then show "i + match_length op cl cap \<le> length s"
    using b unfolding match_length_def len by simp
qed

lemma regex_exec_take_append:
  assumes "regex_exec eq anyChar op cl s = Some (i, cap)"
  shows "regex_exec eq anyChar op cl (take (i + match_length op cl cap) s @ b) = Some (i, cap)"
proof -
  let ?e = "i + match_length op cl cap"
  let ?a = "i + length op"
  note p = regex_exec_parts [OF assms]
  have e: "?e \<le> length s" by (rule p(4))
  have s: "s = take ?e s @ drop ?e s" by simp
  have "search eq op (take ?e s @ drop ?e s) = Some i" using p(1) by simp
  then have "search eq op (take ?e s) = Some i"
    by (rule search_append_Some_rev) (use e in \<open>simp add: match_length_def\<close>)
  then have 1: "search eq op (take ?e s @ b) = Some i" by (rule search_append_Some)
  have d: "drop ?a (take ?e s @ b) = drop ?a (take ?e s) @ b"
    using e by (simp add: match_length_def)
  have "drop ?a (take ?e s @ drop ?e s)
      = drop ?a (take ?e s) @ drop (?a - length (take ?e s)) (drop ?e s)"
    by (rule drop_append)
  moreover have "?a - length (take ?e s) = 0" using e by (simp add: match_length_def)
  ultimately have "drop ?a (take ?e s) @ drop ?e s = drop ?a s"
    by (metis append_take_drop_id drop_0)
  then have "search eq cl (drop ?a (take ?e s) @ drop ?e s) = Some (length cap)"
    using p(2) by simp
  then have "search eq cl (drop ?a (take ?e s)) = Some (length cap)"
    by (rule search_append_Some_rev) (use e in \<open>simp add: match_length_def\<close>)
  then have 2: "search eq cl (drop ?a (take ?e s) @ b) = Some (length cap)"
    by (rule search_append_Some)
  have "take (length cap) (drop ?a (take ?e s) @ b) = take (length cap) (drop ?a s)"
    using e by (simp add: match_length_def drop_take)
  then have 3: "take (length cap) (drop ?a (take ?e s) @ b) = cap" using p(3) by simp
  show ?thesis unfolding regex_exec_search by (simp only: 1 option.case d 2 3)
qed

lemma regex_exec_None_drop:
  assumes "regex_exec eq anyChar op cl s = None"
  shows "regex_exec eq anyChar op cl (drop m s) = None"
proof (cases "search eq op (drop m s)")
  case None
  then show ?thesis by (simp add: regex_exec_search)
next
  case (Some j)
  define m' where "m' = min m (length s)"
  have dm: "drop m s = drop m' s" unfolding m'_def by (cases "m \<le> length s") simp_all
  have "j \<le> length (drop m' s)" using Some unfolding dm by (rule search_Some_le)
  then have le: "m' + j \<le> length s" unfolding m'_def by simp
  have "matches_at eq op (drop j (drop m' s))" using Some unfolding dm by (rule search_Some_matches)
  then have "matches_at eq op (drop (m' + j) s)" by (simp add: add.commute)
  then obtain i0 where i0: "search eq op s = Some i0" "i0 \<le> m' + j"
    using search_exists le by blast
  then have "search eq cl (drop (i0 + length op) s) = None"
    using assms by (simp add: regex_exec_search split: option.splits)
  then have "search eq cl (drop (m' + j - i0) (drop (i0 + length op) s)) = None"
    by (rule search_None_drop)
  moreover have "drop (m' + j - i0) (drop (i0 + length op) s) = drop (j + length op) (drop m' s)"
    using i0(2) by (simp add: add.commute add.left_commute)
  ultimately show ?thesis using Some by (simp add: regex_exec_search dm)
qed

lemma drop_len: "n = length xs \<Longrightarrow> drop n (xs @ ys) = ys"
  by simp

lemma take_len: "n = length xs \<Longrightarrow> take n (xs @ ys) = xs"
  by simp

lemma sectionClose_not_Nil: "sectionClose \<noteq> []"
  by (simp add: sectionClose_def)

lemma barrier_close_newline: "list_all (\<lambda>p. \<not> eqNoCase p (CHR ''\<newline>'')) sectionClose"
  by (simp add: sectionClose_def eqNoCase_def canonicalize_Char)

lemma inserted_open_inert: "inert eqNoCase sectionClose (''\<newline>  '' @ sectionOpen)"
  by (simp add: sectionOpen_def sectionClose_def inert_eval)

lemma inserted_length:
  "length (A @ ''\<newline>\<newline>  '' @ newSectionOf F)
     = length A + 4 + length sectionOpen + length (sectionBody F) + length sectionClose"
  by (simp add: newSectionOf_body)

lemma scan_inserted:
  assumes "search eqNoCase sectionOpen A = None"
  shows "regex_exec eqNoCase anyChar sectionOpen sectionClose (A @ ''\<newline>\<newline>  '' @ newSectionOf F @ B)
       = Some (length A + 4, sectionBody F)"
proof -
  let ?M = "sectionBody F"
  let ?r = "A @ ''\<newline>\<newline>  '' @ newSectionOf F @ B"
  have r: "?r = ((A @ ''\<newline>\<newline>  '') @ sectionOpen) @ (?M @ sectionClose @ B)"
    by (simp add: newSectionOf_body)
  have "search eqNoCase sectionOpen ((A @ ''\<newline>\<newline>  '') @ sectionOpen)
      = Some (length (A @ ''\<newline>\<newline>  ''))"
    using assms by (rule open_after_insert(1))
  then have 1: "search eqNoCase sectionOpen ?r = Some (length A + 4)"
    unfolding r by (simp add: search_append_Some del: append_assoc)
  have 2: "drop (length A + 4 + length sectionOpen) ?r = ?M @ sectionClose @ B"
    unfolding r by (rule drop_len) simp
  have 3: "search eqNoCase sectionClose (?M @ sectionClose @ B) = Some (length ?M)"
    using eqNoCase_refl sectionBody_inert by (rule search_found)
  show ?thesis unfolding regex_exec_search by (simp only: 1 option.case 2 3) simp
qed

lemma scan_dangling:
  assumes "search eqNoCase sectionOpen A = Some j"
    and "search eqNoCase sectionClose (drop (j + length sectionOpen) A) = None"
  shows "regex_exec eqNoCase anyChar sectionOpen sectionClose (A @ ''\<newline>\<newline>  '' @ newSectionOf F @ B)
       = Some (j, drop (j + length sectionOpen) A @ ''\<newline>\<newline>  '' @ sectionOpen @ sectionBody F)"
proof -
  let ?M = "sectionBody F"
  let ?A2 = "drop (j + length sectionOpen) A"
  let ?r = "A @ ''\<newline>\<newline>  '' @ newSectionOf F @ B"
  let ?t = "''\<newline>  '' @ sectionOpen @ ?M"
  have 1: "search eqNoCase sectionOpen ?r = Some j" using assms(1) by (rule search_append_Some)
  have b: "j + length sectionOpen \<le> length A" using assms(1) by (rule search_Some_bound)
  then have 2: "drop (j + length sectionOpen) ?r = ?A2 @ CHR ''\<newline>'' # (?t @ sectionClose @ B)"
    by (simp add: newSectionOf_body)
  have "inert eqNoCase sectionClose ((''\<newline>  '' @ sectionOpen) @ ?M)"
    using inserted_open_inert sectionBody_inert by (rule inert_append)
  then have "inert eqNoCase sectionClose ?t" by simp
  with eqNoCase_refl have "search eqNoCase sectionClose (?t @ sectionClose @ B) = Some (length ?t)"
    by (rule search_found)
  moreover have "search eqNoCase sectionClose (?A2 @ CHR ''\<newline>'' # (?t @ sectionClose @ B))
      = map_option (\<lambda>n. length ?A2 + 1 + n) (search eqNoCase sectionClose (?t @ sectionClose @ B))"
    using barrier_close_newline sectionClose_not_Nil assms(2) by (rule search_barrier)
  ultimately have 3: "search eqNoCase sectionClose (?A2 @ CHR ''\<newline>'' # (?t @ sectionClose @ B))
      = Some (length ?A2 + 1 + length ?t)" by simp
  have "?A2 @ CHR ''\<newline>'' # (?t @ sectionClose @ B)
      = (?A2 @ ''\<newline>\<newline>  '' @ sectionOpen @ ?M) @ (sectionClose @ B)" by simp
  moreover have "take (length ?A2 + 1 + length ?t)
        ((?A2 @ ''\<newline>\<newline>  '' @ sectionOpen @ ?M) @ (sectionClose @ B))
      = ?A2 @ ''\<newline>\<newline>  '' @ sectionOpen @ ?M"
    by (rule take_len) simp
  ultimately have 4: "take (length ?A2 + 1 + length ?t) (?A2 @ CHR ''\<newline>'' # (?t @ sectionClose @ B))
      = ?A2 @ ''\<newline>\<newline>  '' @ sectionOpen @ ?M" by (simp only:)
  show ?thesis unfolding regex_exec_search by (simp only: 1 option.case 2 3 4)
qed

lemma matchAll_inserted:
  assumes "regex_exec eqNoCase anyChar sectionOpen sectionClose (A @ B) = None"
  shows "\<exists>z. regex_matchAll eqNoCase anyChar sectionOpen sectionClose
               (A @ ''\<newline>\<newline>  '' @ newSectionOf F @ B) = [z @ sectionBody F]"
proof -
  let ?M = "sectionBody F"
  let ?I = "''\<newline>\<newline>  '' @ newSectionOf F"
  let ?r = "A @ ''\<newline>\<newline>  '' @ newSectionOf F @ B"
  have "regex_exec eqNoCase anyChar sectionOpen sectionClose (drop (length A) (A @ B)) = None"
    using assms by (rule regex_exec_None_drop)
  then have B: "regex_matchAll eqNoCase anyChar sectionOpen sectionClose B = []"
    by (simp add: regex_matchAll_None)
  have r: "?r = (A @ ?I) @ B" by simp
  show ?thesis
  proof (cases "search eqNoCase sectionOpen A")
    case None
    then have ex: "regex_exec eqNoCase anyChar sectionOpen sectionClose ?r = Some (length A + 4, ?M)"
      by (rule scan_inserted)
    have "length A + 4 + match_length sectionOpen sectionClose ?M = length (A @ ?I)"
      unfolding match_length_def by (simp add: newSectionOf_body)
    then have "drop (length A + 4 + match_length sectionOpen sectionClose ?M) ?r = B"
      unfolding r by (simp only: drop_append) simp
    then have "regex_matchAll eqNoCase anyChar sectionOpen sectionClose ?r = [[] @ ?M]"
      using regex_matchAll_exec [OF ex sectionOpen_not_Nil] B by simp
    then show ?thesis by blast
  next
    case (Some j)
    let ?A2 = "drop (j + length sectionOpen) A"
    let ?cap = "?A2 @ ''\<newline>\<newline>  '' @ sectionOpen @ ?M"
    have b: "j + length sectionOpen \<le> length A" using Some by (rule search_Some_bound)
    have "search eqNoCase sectionOpen (A @ B) = Some j" using Some by (rule search_append_Some)
    then have "search eqNoCase sectionClose (drop (j + length sectionOpen) (A @ B)) = None"
      using assms by (simp add: regex_exec_search split: option.splits)
    then have "search eqNoCase sectionClose (?A2 @ B) = None" using b by simp
    then have "search eqNoCase sectionClose ?A2 = None" by (rule search_append_None)
    with Some have ex: "regex_exec eqNoCase anyChar sectionOpen sectionClose ?r = Some (j, ?cap)"
      by (rule scan_dangling)
    have "j + match_length sectionOpen sectionClose ?cap = length (A @ ?I)"
      unfolding match_length_def using b by (simp add: newSectionOf_body)
    then have "drop (j + match_length sectionOpen sectionClose ?cap) ?r = B"
      unfolding r by (simp only: drop_append) simp
    then have "regex_matchAll eqNoCase anyChar sectionOpen sectionClose ?r
        = [(?A2 @ ''\<newline>\<newline>  '' @ sectionOpen) @ ?M]"
      using regex_matchAll_exec [OF ex sectionOpen_not_Nil] B by simp
    then show ?thesis by blast
  qed
qed

lemma matchAll_inserted_before:
  assumes "regex_exec eqNoCase anyChar sectionOpen sectionClose d = Some (i, cap)" and "p \<le> i"
  shows "regex_matchAll eqNoCase anyChar sectionOpen sectionClose
           (take p d @ ''\<newline>\<newline>  '' @ newSectionOf F @ drop p d)
       = sectionBody F # regex_matchAll eqNoCase anyChar sectionOpen sectionClose d"
proof -
  let ?M = "sectionBody F"
  let ?I = "''\<newline>\<newline>  '' @ newSectionOf F"
  let ?r = "take p d @ ''\<newline>\<newline>  '' @ newSectionOf F @ drop p d"
  note parts = regex_exec_parts [OF assms(1)]
  have none: "search eqNoCase sectionOpen (take p d) = None"
  proof (rule ccontr)
    assume "search eqNoCase sectionOpen (take p d) \<noteq> None"
    then obtain j where Some: "search eqNoCase sectionOpen (take p d) = Some j" by auto
    then have "search eqNoCase sectionOpen (take p d @ drop p d) = Some j"
      by (rule search_append_Some)
    then have "j = i" using parts(1) by simp
    moreover have "j + length sectionOpen \<le> length (take p d)"
      using Some by (rule search_Some_bound)
    moreover have "0 < length sectionOpen" using sectionOpen_not_Nil by simp
    ultimately show False using assms(2) by simp
  qed
  have ex: "regex_exec eqNoCase anyChar sectionOpen sectionClose ?r = Some (length (take p d) + 4, ?M)"
    using none by (rule scan_inserted)
  have r: "?r = (take p d @ ?I) @ drop p d" by simp
  have "length (take p d) + 4 + match_length sectionOpen sectionClose ?M = length (take p d @ ?I)"
    unfolding match_length_def by (simp add: newSectionOf_body)
  then have "drop (length (take p d) + 4 + match_length sectionOpen sectionClose ?M) ?r = drop p d"
    unfolding r by (simp only: drop_append) simp
  then have "regex_matchAll eqNoCase anyChar sectionOpen sectionClose ?r
      = ?M # regex_matchAll eqNoCase anyChar sectionOpen sectionClose (drop p d)"
    using regex_matchAll_exec [OF ex sectionOpen_not_Nil] by simp
  then show ?thesis
    using regex_matchAll_drop [OF assms sectionOpen_not_Nil] by simp
qed

lemma matchAll_inserted_after:
  assumes sec: "regex_exec eqNoCase anyChar sectionOpen sectionClose d = Some (i, cap)"
    and only: "regex_matchAll eqNoCase anyChar sectionOpen sectionClose d = [cap]"
    and e: "i + match_length sectionOpen sectionClose cap \<le> p" and p: "p \<le> length d"
  shows "\<exists>z. regex_matchAll eqNoCase anyChar sectionOpen sectionClose
           (take p d @ ''\<newline>\<newline>  '' @ newSectionOf F @ drop p d)
       = [cap, z @ sectionBody F]"
proof -
  let ?e = "i + match_length sectionOpen sectionClose cap"
  let ?A = "drop ?e (take p d)"
  let ?B = "drop p d"
  let ?r' = "?A @ ''\<newline>\<newline>  '' @ newSectionOf F @ ?B"
  let ?r = "take p d @ ''\<newline>\<newline>  '' @ newSectionOf F @ drop p d"
  have tp: "take p d = take ?e d @ ?A"
    using e by (metis append_take_drop_id min.absorb1 take_take)
  have r: "?r = take ?e d @ ?r'" by (subst tp) simp
  have AB: "?A @ ?B = drop ?e d"
  proof -
    have "drop ?e (take p d @ drop p d) = drop ?e (take p d) @ drop (?e - length (take p d)) (drop p d)"
      by (rule drop_append)
    moreover have "?e - length (take p d) = 0" using e p by simp
    ultimately show ?thesis by (metis append_take_drop_id drop_0)
  qed
  have "regex_matchAll eqNoCase anyChar sectionOpen sectionClose d
      = cap # regex_matchAll eqNoCase anyChar sectionOpen sectionClose (drop ?e d)"
    using sec sectionOpen_not_Nil by (rule regex_matchAll_exec)
  then have "regex_matchAll eqNoCase anyChar sectionOpen sectionClose (drop ?e d) = []"
    using only by simp
  then have "regex_exec eqNoCase anyChar sectionOpen sectionClose (?A @ ?B) = None"
    unfolding AB using regex_matchAll_exec [OF _ sectionOpen_not_Nil, of eqNoCase anyChar sectionClose "drop ?e d"]
    by (cases "regex_exec eqNoCase anyChar sectionOpen sectionClose (drop ?e d)") auto
  then obtain z where z: "regex_matchAll eqNoCase anyChar sectionOpen sectionClose ?r' = [z @ sectionBody F]"
    using matchAll_inserted by blast
  have ex: "regex_exec eqNoCase anyChar sectionOpen sectionClose ?r = Some (i, cap)"
    unfolding r using sec by (rule regex_exec_take_append)
  have "length (take ?e d) = ?e" using e p by simp
  then have "drop ?e ?r = ?r'" unfolding r by (simp only: drop_append) simp
  then have "regex_matchAll eqNoCase anyChar sectionOpen sectionClose ?r = [cap, z @ sectionBody F]"
    using regex_matchAll_exec [OF ex sectionOpen_not_Nil] z by simp
  then show ?thesis by blast
qed

section \<open>Scanning a sequence of items\<close>




section \<open>Reading a well-formed section\<close>




















section \<open>The claims\<close>

text \<open>
  C1 (as amended): let every feature of \<open>F\<close> have a non-empty name, no white space at
  either end and no line terminator in its name, its description and its locations, and a
  list of locations that is absent or non-empty. Let the section of the document \<open>d\<close>
  be well formed or absent, and let one of the first three rules of the policy apply to
  \<open>d\<close>. When \<open>d\<close> has a section, so that it is replaced, let no field of \<open>F\<close> contain
  \<open>$\<close>. Then reading the features of the updated document gives \<open>F\<close>, in the same
  order. The names need not be unique.

  The property does not hold for every list with unique names and every document with a
  well-formed or absent section. A document without a section and without
  \<open></core_capabilities>\<close> and \<open></project_specification>\<close> is returned unchanged. A
  name with a leading space is read back without it, a description of two lines as the
  empty description, an empty list of locations as no list, and a feature with the empty
  name is not read back. After a section tagged in upper case the new section is
  inserted second, and the features are read from the first.
\<close>

theorem write_then_read:
  assumes "list_all cleanFeature F" and "sectionWellFormed d" and "hasInsertionPoint d"
    and "regex_test eqCase anyChar sectionOpen sectionClose d \<Longrightarrow> list_all dollarFree F"
  shows "extractImplementedFeatures (updateImplementedFeaturesSection d F) = F"
  using assms by (rule update_then_extract)

theorem write_then_read_witness:
  "extractImplementedFeatures
     (updateImplementedFeaturesSection ''<x><implemented_features></implemented_features></x>''
        [\<lparr>name = ''Login & <x>'', description = ''Email'', file_locations = Some [''src/a.ts'']\<rparr>,
         \<lparr>name = ''B'', description = [], file_locations = None\<rparr>])
   = [\<lparr>name = ''Login & <x>'', description = ''Email'', file_locations = Some [''src/a.ts'']\<rparr>,
      \<lparr>name = ''B'', description = [], file_locations = None\<rparr>]"
proof (rule write_then_read)
  let ?F = "[\<lparr>name = ''Login & <x>'', description = ''Email'', file_locations = Some [''src/a.ts'']\<rparr>,
      \<lparr>name = ''B'', description = [], file_locations = None\<rparr>]"
  let ?d = "''<x><implemented_features></implemented_features></x>''"
  show "list_all cleanFeature ?F" by code_simp
  show "sectionWellFormed ?d" by code_simp
  show "hasInsertionPoint ?d" by code_simp
  show "list_all dollarFree ?F" by code_simp
qed

theorem write_then_read_counterexample:
  "distinct (map (\<lambda>f. toLowerCase (name f)) [\<lparr>name = ''A'', description = [], file_locations = None\<rparr>])
   \<and> sectionWellFormed []
   \<and> extractImplementedFeatures
       (updateImplementedFeaturesSection [] [\<lparr>name = ''A'', description = [], file_locations = None\<rparr>])
     \<noteq> [\<lparr>name = ''A'', description = [], file_locations = None\<rparr>]
   \<and> extractImplementedFeatures
       (updateImplementedFeaturesSection [] [\<lparr>name = ''A'', description = [], file_locations = None\<rparr>])
     = []
   \<and> sectionWellFormed ''</core_capabilities>''
   \<and> extractImplementedFeatures
       (updateImplementedFeaturesSection ''</core_capabilities>''
          [\<lparr>name = '' A'', description = [], file_locations = None\<rparr>])
     \<noteq> [\<lparr>name = '' A'', description = [], file_locations = None\<rparr>]
   \<and> extractImplementedFeatures
       (updateImplementedFeaturesSection ''</core_capabilities>''
          [\<lparr>name = '' A'', description = [], file_locations = None\<rparr>])
     = [\<lparr>name = ''A'', description = [], file_locations = None\<rparr>]
   \<and> extractImplementedFeatures
       (updateImplementedFeaturesSection ''</core_capabilities>''
          [\<lparr>name = ''A'', description = ''x\<newline>y'', file_locations = Some []\<rparr>])
     = [\<lparr>name = ''A'', description = [], file_locations = None\<rparr>]
   \<and> extractImplementedFeatures
       (updateImplementedFeaturesSection ''</core_capabilities>''
          [\<lparr>name = [], description = [], file_locations = None\<rparr>])
     = []
   \<and> extractImplementedFeatures
       (updateImplementedFeaturesSection
          ''<IMPLEMENTED_FEATURES></IMPLEMENTED_FEATURES></core_capabilities>''
          [\<lparr>name = ''A'', description = [], file_locations = None\<rparr>])
     = []"
  by code_simp



text \<open>
  C3 (as amended): \<open>addImplementedFeature\<close> returns the document unchanged when a
  feature of the document has the same name up to case, and otherwise writes the features
  of the document followed by the new one. In that case the features read from the
  result are those of the document followed by the new one, at the end, when the new
  feature is one that is read back as it is written (a non-empty name, no white space at
  either end and no line terminator in its fields, locations absent or non-empty), the
  section of the document is well formed or absent, one of the first three rules of the
  policy applies and, when a section is replaced, no feature contains \<open>$\<close>.

  Adding the same feature twice gives the same document as adding it once when the name of the feature has no white space at either
  end, the section of the document is well formed or absent and, where the second call
  replaces a section (the document has one already, or the name is empty or holds a line
  terminator, so that the feature is not read back), neither the features of the document
  nor the new one contain \<open>$\<close>.

  The property does not hold for every document and feature: a name with a leading space
  is read back without it, so the second call does not find it and appends the feature
  again; a document whose first section tag is in upper case and is followed by a
  dangling lower-case opening tag gets a section that is not the one read back; and a
  feature with an empty name and \<open>$$\<close> in its description is written again by
  the second call, with \<open>$\<close> in place of \<open>$$\<close>.
\<close>

theorem add_twice:
  "(trim (name f) = name f \<longrightarrow> sectionWellFormed d \<longrightarrow>
      (regex_test eqCase anyChar sectionOpen sectionClose d \<or> name f = []
         \<or> \<not> list_all dotChar (name f) \<longrightarrow>
       list_all dollarFree (extractImplementedFeatures d @ [f])) \<longrightarrow>
      addImplementedFeature (addImplementedFeature d f) f = addImplementedFeature d f)
   \<and> addImplementedFeature d f =
         (if list_ex (sameName (name f)) (extractImplementedFeatures d) then d
          else updateImplementedFeaturesSection d (extractImplementedFeatures d @ [f]))
   \<and> (\<not> list_ex (sameName (name f)) (extractImplementedFeatures d) \<longrightarrow>
      cleanFeature f \<longrightarrow> sectionWellFormed d \<longrightarrow> hasInsertionPoint d \<longrightarrow>
      (regex_test eqCase anyChar sectionOpen sectionClose d \<longrightarrow>
       list_all dollarFree (extractImplementedFeatures d @ [f])) \<longrightarrow>
      extractImplementedFeatures (addImplementedFeature d f) = extractImplementedFeatures d @ [f])"
proof (intro conjI impI)
  let ?E = "extractImplementedFeatures d"
  let ?d1 = "updateImplementedFeaturesSection d (?E @ [f])"
  let ?pf = "\<lambda>f. parseFeature (featureBody f)"
  show def: "addImplementedFeature d f = (if list_ex (sameName (name f)) ?E then d else ?d1)"
    by (simp add: addImplementedFeature_def Let_def)
  show "extractImplementedFeatures (addImplementedFeature d f) = ?E @ [f]"
    if "\<not> list_ex (sameName (name f)) ?E" and clean: "cleanFeature f"
      and wf: "sectionWellFormed d" and ins: "hasInsertionPoint d"
      and dollar: "regex_test eqCase anyChar sectionOpen sectionClose d \<longrightarrow>
        list_all dollarFree (?E @ [f])"
  proof -
    have "list_all cleanFeature (?E @ [f])" using clean extract_clean [of d] by simp
    then have "extractImplementedFeatures ?d1 = ?E @ [f]"
      using wf ins dollar by (intro update_then_extract) simp_all
    then show ?thesis using that(1) def by simp
  qed
  assume trimmed: "trim (name f) = name f" and wf: "sectionWellFormed d"
    and dollar: "regex_test eqCase anyChar sectionOpen sectionClose d \<or> name f = []
         \<or> \<not> list_all dotChar (name f) \<longrightarrow> list_all dollarFree (?E @ [f])"
  show "addImplementedFeature (addImplementedFeature d f) f = addImplementedFeature d f"
  proof (cases "list_ex (sameName (name f)) ?E")
    case True
    then show ?thesis by (simp add: addImplementedFeature_def)
  next
    case False
    then have 1: "addImplementedFeature d f = ?d1" using def by simp
    show ?thesis
    proof (cases "hasInsertionPoint d")
      case True
      obtain pre post where shape: "?d1 = pre @ newSectionOf (?E @ [f]) @ post"
        and pre: "search eqNoCase sectionOpen (pre @ sectionOpen) = Some (length pre)"
        using update_shape [OF wf True, of "?E @ [f]"] dollar by blast
      have "extractImplementedFeatures ?d1 = List.map_filter ?pf (?E @ [f])"
        unfolding shape using pre by (rule extract_newSection_gen)
      also have "\<dots> = ?E @ List.map_filter ?pf [f]"
        using map_filter_clean [OF extract_clean [of d]] by (simp add: List.map_filter_def)
      finally have E1: "extractImplementedFeatures ?d1 = ?E @ List.map_filter ?pf [f]" .
      show ?thesis
      proof (cases "name f = [] \<or> \<not> list_all dotChar (name f)")
        case True
        then have free: "list_all dollarFree (?E @ [f])" using dollar by blast
        from True have "?pf f = None" by (rule parseFeature_name_None)
        then have "extractImplementedFeatures ?d1 = ?E" using E1 by simp
        then have "addImplementedFeature ?d1 f = updateImplementedFeaturesSection ?d1 (?E @ [f])"
          using False by (simp add: addImplementedFeature_def Let_def)
        also have "\<dots> = ?d1"
          unfolding shape using pre free by (simp only: update_written)
        finally show ?thesis unfolding 1 .
      next
        case plain: False
        then have "name f \<noteq> []" "plainText (name f)"
          using trimmed by (simp_all add: plainText_def)
        then obtain g where "?pf f = Some g" "name g = name f"
          using parseFeature_name_Some by blast
        then have "list_ex (sameName (name f)) (extractImplementedFeatures ?d1)"
          unfolding E1 by (simp add: sameName_def)
        then have "addImplementedFeature ?d1 f = ?d1"
          by (simp add: addImplementedFeature_def)
        then show ?thesis unfolding 1 .
      qed
    next
      case False
      then have "?d1 = d" by (rule update_no_insertion)
      then show ?thesis using 1 by simp
    qed
  qed
qed

theorem add_twice_witness:
  "addImplementedFeature
     (addImplementedFeature
        ''<implemented_features><feature><name>B</name></feature></implemented_features>''
        \<lparr>name = ''Login'', description = ''Email & password'', file_locations = Some [''src/a.ts'']\<rparr>)
     \<lparr>name = ''Login'', description = ''Email & password'', file_locations = Some [''src/a.ts'']\<rparr>
   = addImplementedFeature
       ''<implemented_features><feature><name>B</name></feature></implemented_features>''
       \<lparr>name = ''Login'', description = ''Email & password'', file_locations = Some [''src/a.ts'']\<rparr>
   \<and> extractImplementedFeatures
       (addImplementedFeature
          ''<implemented_features><feature><name>B</name></feature></implemented_features>''
          \<lparr>name = ''Login'', description = ''Email & password'', file_locations = Some [''src/a.ts'']\<rparr>)
     = [\<lparr>name = ''B'', description = [], file_locations = None\<rparr>,
        \<lparr>name = ''Login'', description = ''Email & password'', file_locations = Some [''src/a.ts'']\<rparr>]"
proof -
  let ?f = "\<lparr>name = ''Login'', description = ''Email & password'', file_locations = Some [''src/a.ts'']\<rparr>"
  let ?d = "''<implemented_features><feature><name>B</name></feature></implemented_features>''"
  have E: "extractImplementedFeatures ?d = [\<lparr>name = ''B'', description = [], file_locations = None\<rparr>]"
    by code_simp
  have 1: "trim (name ?f) = name ?f" by code_simp
  have 2: "sectionWellFormed ?d" by code_simp
  have 3: "list_all dollarFree (extractImplementedFeatures ?d @ [?f])" unfolding E by code_simp
  have 4: "\<not> list_ex (sameName (name ?f)) (extractImplementedFeatures ?d)" unfolding E by code_simp
  have 5: "cleanFeature ?f" by code_simp
  have 6: "hasInsertionPoint ?d" by code_simp
  note t = add_twice [of ?f ?d]
  have "extractImplementedFeatures (addImplementedFeature ?d ?f) = extractImplementedFeatures ?d @ [?f]"
    using t [THEN conjunct2, THEN conjunct2] 2 3 4 5 6 by blast
  then have "extractImplementedFeatures (addImplementedFeature ?d ?f)
      = [\<lparr>name = ''B'', description = [], file_locations = None\<rparr>, ?f]"
    unfolding E by simp
  moreover have "addImplementedFeature (addImplementedFeature ?d ?f) ?f = addImplementedFeature ?d ?f"
    using t [THEN conjunct1] 1 2 3 by blast
  ultimately show ?thesis by (rule conjI [rotated])
qed

theorem add_twice_counterexample:
  "addImplementedFeature
     (addImplementedFeature ''</core_capabilities>'' \<lparr>name = '' A'', description = [], file_locations = None\<rparr>)
     \<lparr>name = '' A'', description = [], file_locations = None\<rparr>
   \<noteq> addImplementedFeature ''</core_capabilities>'' \<lparr>name = '' A'', description = [], file_locations = None\<rparr>
   \<and> addImplementedFeature
     (addImplementedFeature
        ''<IMPLEMENTED_FEATURES></IMPLEMENTED_FEATURES><implemented_features></core_capabilities>''
        \<lparr>name = ''A'', description = [], file_locations = None\<rparr>)
     \<lparr>name = ''A'', description = [], file_locations = None\<rparr>
   \<noteq> addImplementedFeature
       ''<IMPLEMENTED_FEATURES></IMPLEMENTED_FEATURES><implemented_features></core_capabilities>''
       \<lparr>name = ''A'', description = [], file_locations = None\<rparr>
   \<and> addImplementedFeature
     (addImplementedFeature ''</core_capabilities>'' \<lparr>name = [], description = ''$$'', file_locations = None\<rparr>)
     \<lparr>name = [], description = ''$$'', file_locations = None\<rparr>
   \<noteq> addImplementedFeature ''</core_capabilities>'' \<lparr>name = [], description = ''$$'', file_locations = None\<rparr>"
  by code_simp

text \<open>
  C4 (as amended): \<open>removeImplementedFeature\<close> returns the document unchanged when no
  feature of the document has the name up to case, and otherwise writes the features of
  the document without those that have it. After the removal \<open>hasImplementedFeature\<close>
  is false for the name when the section of the document is well formed or absent and no
  feature that is kept contains \<open>$\<close>.

  The property does not hold for every document: for a document whose section is tagged
  in upper case and that has no insertion point, the feature is found, the update finds
  no lower-case section to replace and returns the document unchanged, and the feature is
  still there.
\<close>

theorem remove_then_absent:
  "(sectionWellFormed d \<longrightarrow>
      list_all dollarFree (filter (\<lambda>f. \<not> sameName n f) (extractImplementedFeatures d)) \<longrightarrow>
      \<not> hasImplementedFeature (removeImplementedFeature d n) n)
   \<and> removeImplementedFeature d n =
         (if list_ex (sameName n) (extractImplementedFeatures d)
          then updateImplementedFeaturesSection d
                 (filter (\<lambda>f. \<not> sameName n f) (extractImplementedFeatures d))
          else d)"
proof (intro conjI impI)
  let ?E = "extractImplementedFeatures d"
  let ?U = "filter (\<lambda>f. \<not> sameName n f) ?E"
  show def: "removeImplementedFeature d n =
      (if list_ex (sameName n) ?E then updateImplementedFeaturesSection d ?U else d)"
    by (simp add: removeImplementedFeature_def Let_def length_filter_eq_iff)
  assume wf: "sectionWellFormed d" and dollar: "list_all dollarFree ?U"
  show "\<not> hasImplementedFeature (removeImplementedFeature d n) n"
  proof (cases "list_ex (sameName n) ?E")
    case False
    then show ?thesis using def by (simp add: hasImplementedFeature_def)
  next
    case True
    then have "?E \<noteq> []" by auto
    then have test: "regex_test eqCase anyChar sectionOpen sectionClose d"
      using wf by (intro extract_section_test)
    have "list_all cleanFeature ?U" using extract_clean [of d] by (simp add: list_all_iff)
    moreover have "hasInsertionPoint d" using test by (simp add: hasInsertionPoint_def)
    moreover have "list_all dollarFree ?U" using dollar .
    ultimately have "extractImplementedFeatures (updateImplementedFeaturesSection d ?U) = ?U"
      using wf by (intro update_then_extract)
    then show ?thesis using True def by (simp add: hasImplementedFeature_def list_ex_iff)
  qed
qed

theorem remove_then_absent_witness:
  "\<not> hasImplementedFeature
       (removeImplementedFeature
          ''<implemented_features><feature><name>A</name></feature><feature><name>B</name></feature></implemented_features>''
          ''a'') ''a''
   \<and> removeImplementedFeature
        ''<implemented_features><feature><name>A</name></feature><feature><name>B</name></feature></implemented_features>''
        ''a''
     = updateImplementedFeaturesSection
        ''<implemented_features><feature><name>A</name></feature><feature><name>B</name></feature></implemented_features>''
        [\<lparr>name = ''B'', description = [], file_locations = None\<rparr>]"
proof -
  let ?d = "''<implemented_features><feature><name>A</name></feature><feature><name>B</name></feature></implemented_features>''"
  have 1: "sectionWellFormed ?d" by code_simp
  have E: "extractImplementedFeatures ?d =
      [\<lparr>name = ''A'', description = [], file_locations = None\<rparr>,
       \<lparr>name = ''B'', description = [], file_locations = None\<rparr>]" by code_simp
  have 3: "list_ex (sameName ''a'') (extractImplementedFeatures ?d)" unfolding E by code_simp
  have 4: "filter (\<lambda>f. \<not> sameName ''a'' f) (extractImplementedFeatures ?d)
      = [\<lparr>name = ''B'', description = [], file_locations = None\<rparr>]" unfolding E by code_simp
  have 2: "list_all dollarFree (filter (\<lambda>f. \<not> sameName ''a'' f) (extractImplementedFeatures ?d))"
    unfolding 4 by code_simp
  note t = remove_then_absent [of ?d "''a''"]
  have "removeImplementedFeature ?d ''a'' =
      updateImplementedFeaturesSection ?d [\<lparr>name = ''B'', description = [], file_locations = None\<rparr>]"
    using t [THEN conjunct2] 3 by (simp only: if_True 4)
  moreover have "\<not> hasImplementedFeature (removeImplementedFeature ?d ''a'') ''a''"
    using t [THEN conjunct1] 1 2 by blast
  ultimately show ?thesis by (rule conjI [rotated])
qed

theorem remove_then_absent_counterexample:
  "hasImplementedFeature
     (removeImplementedFeature
        ''<IMPLEMENTED_FEATURES><feature><name>A</name></feature></IMPLEMENTED_FEATURES>'' ''A'')
     ''A''"
  by code_simp

text \<open>
  C5: \<open>updateImplementedFeature\<close> is to keep every field of the matched feature that the
  update does not supply. On the document below the description \<open>a$$b\<close> of the feature
  \<open>A\<close> is not supplied by the update, which only renames the feature; the section is
  written through \<open>String.prototype.replace\<close> with the new section as the replacement
  string, where \<open>$$\<close> stands for \<open>$\<close>, and the description in the resulting document
  is \<open>a$b\<close>.
\<close>

theorem update_rewrites_dollar:
  "extractImplementedFeatures
     ''<implemented_features><feature><name>A</name><description>a$$b</description></feature></implemented_features>''
   = [\<lparr>name = ''A'', description = ''a$$b'', file_locations = None\<rparr>]
   \<and> extractImplementedFeatures
      (updateImplementedFeature
         ''<implemented_features><feature><name>A</name><description>a$$b</description></feature></implemented_features>''
         ''A'' \<lparr>updates_name = Value ''B'', updates_description = Absent, updates_file_locations = Absent\<rparr>)
   = [\<lparr>name = ''B'', description = ''a$b'', file_locations = None\<rparr>]"
  by code_simp

text \<open>
  C6: the ordered policy is: an existing section is replaced in place by the new section,
  from the first opening tag to the end of the first closing tag after it; else the new
  section is inserted right after the first \<open></core_capabilities>\<close>; else right before
  the first \<open></project_specification>\<close>; else the document is returned unchanged.
  \<open>updateImplementedFeaturesSection\<close> follows the policy except in the first rule, where
  it hands the new section to \<open>String.prototype.replace\<close> as a replacement string: a
  \<open>$\<close> pattern in the text of a feature is expanded. On the document below the policy
  writes the description \<open>$$\<close> and the function writes \<open>$\<close>.
\<close>

theorem update_section_policy_dollar:
  "sectionPolicy ''<implemented_features></implemented_features>''
     [\<lparr>name = ''A'', description = ''$$'', file_locations = None\<rparr>]
   = ''<implemented_features>\<newline>    <feature>\<newline>      <name>A</name>\<newline>      <description>$$</description>\<newline>    </feature>\<newline>  </implemented_features>''
   \<and> updateImplementedFeaturesSection ''<implemented_features></implemented_features>''
     [\<lparr>name = ''A'', description = ''$$'', file_locations = None\<rparr>]
   = ''<implemented_features>\<newline>    <feature>\<newline>      <name>A</name>\<newline>      <description>$</description>\<newline>    </feature>\<newline>  </implemented_features>''"
  by code_simp



text \<open>
  C8: the conversions between \<open>ImplementedFeature\<close> and the feature representation of
  \<open>SpecOutput\<close> copy the name and the description, and keep the list of file locations
  exactly when it is non-empty: an empty list is given as an absent one. So a conversion
  followed by the other one gives back the list of features exactly when no
  \<open>file_locations\<close> in it is the empty list; in particular they are inverse to each
  other on lists in which every \<open>file_locations\<close> is absent or non-empty.
\<close>

theorem spec_output_roundtrip:
  "(fromSpecOutputFeatures (toSpecOutputFeatures F) = F
      \<longleftrightarrow> (\<forall>f \<in> set F. file_locations f \<noteq> Some []))
 \<and> (toSpecOutputFeatures (fromSpecOutputFeatures G) = G
      \<longleftrightarrow> (\<forall>g \<in> set G. so_file_locations g \<noteq> Some []))
 \<and> map so_name (toSpecOutputFeatures F) = map name F
 \<and> map so_description (toSpecOutputFeatures F) = map description F
 \<and> map so_file_locations (toSpecOutputFeatures F)
     = map (\<lambda>f. if file_locations f = Some [] then None else file_locations f) F
 \<and> map name (fromSpecOutputFeatures G) = map so_name G
 \<and> map description (fromSpecOutputFeatures G) = map so_description G
 \<and> map file_locations (fromSpecOutputFeatures G)
     = map (\<lambda>g. if so_file_locations g = Some [] then None else so_file_locations g) G"
proof (intro conjI)
  have "fromSpecOutputFeatures (toSpecOutputFeatures F) = map (\<lambda>f. f) F
      \<longleftrightarrow> (\<forall>f \<in> set F. file_locations f \<noteq> Some [])"
    unfolding fromSpecOutputFeatures_def toSpecOutputFeatures_def map_map map_eq_conv
    by (intro ball_cong refl) (case_tac x, auto split: option.splits)
  then show "fromSpecOutputFeatures (toSpecOutputFeatures F) = F
      \<longleftrightarrow> (\<forall>f \<in> set F. file_locations f \<noteq> Some [])" by simp
  have "toSpecOutputFeatures (fromSpecOutputFeatures G) = map (\<lambda>g. g) G
      \<longleftrightarrow> (\<forall>g \<in> set G. so_file_locations g \<noteq> Some [])"
    unfolding fromSpecOutputFeatures_def toSpecOutputFeatures_def map_map map_eq_conv
    by (intro ball_cong refl) (case_tac x, auto split: option.splits)
  then show "toSpecOutputFeatures (fromSpecOutputFeatures G) = G
      \<longleftrightarrow> (\<forall>g \<in> set G. so_file_locations g \<noteq> Some [])" by simp
qed (auto simp: toSpecOutputFeatures_def fromSpecOutputFeatures_def split: option.splits)

theorem spec_output_roundtrip_witness:
  "fromSpecOutputFeatures (toSpecOutputFeatures
       [\<lparr>name = ''Login'', description = ''Email auth'', file_locations = Some [''src/a.ts'']\<rparr>,
        \<lparr>name = ''Search'', description = [], file_locations = None\<rparr>])
     = [\<lparr>name = ''Login'', description = ''Email auth'', file_locations = Some [''src/a.ts'']\<rparr>,
        \<lparr>name = ''Search'', description = [], file_locations = None\<rparr>]
   \<and> toSpecOutputFeatures (fromSpecOutputFeatures
       [\<lparr>so_name = ''Login'', so_description = ''Email auth'', so_file_locations = Some []\<rparr>])
     \<noteq> [\<lparr>so_name = ''Login'', so_description = ''Email auth'', so_file_locations = Some []\<rparr>]
   \<and> map so_file_locations (toSpecOutputFeatures
       [\<lparr>name = ''Login'', description = ''Email auth'', file_locations = Some [''src/a.ts'']\<rparr>,
        \<lparr>name = ''Search'', description = [], file_locations = None\<rparr>])
     = [Some [''src/a.ts''], None]"
  using spec_output_roundtrip
    [of "[\<lparr>name = ''Login'', description = ''Email auth'', file_locations = Some [''src/a.ts'']\<rparr>,
          \<lparr>name = ''Search'', description = [], file_locations = None\<rparr>]"
        "[\<lparr>so_name = ''Login'', so_description = ''Email auth'', so_file_locations = Some []\<rparr>]"]
  by simp

text \<open>
  C9 (as amended): the section is detected with the exact letter case by
  \<open>updateImplementedFeaturesSection\<close> and without regard to case by
  \<open>extractXmlSection\<close>. Let the document have exactly one section as the
  case-insensitive expression sees it, no section in lower case, and let its first
  \<open></core_capabilities>\<close> end before that section or begin after it. Then the update
  keeps the whole document and inserts the new lower-case section after
  \<open></core_capabilities>\<close>, and a scan of the result with the case-insensitive
  expression finds two sections: the new one followed by the old one when the insertion
  is before the old section, and the old one followed by one that ends with the text of
  the new one when it is after it.

  The property does not hold for every document with \<open></core_capabilities>\<close>: when
  the tag lies inside the section, the new section is inserted into the old one, and
  the scan finds a single section, from the old opening tag to the new closing tag.
\<close>

theorem case_variant_section_kept:
  assumes sec: "regex_exec eqNoCase anyChar sectionOpen sectionClose d = Some (i, cap)"
    and only: "regex_matchAll eqNoCase anyChar sectionOpen sectionClose d = [cap]"
    and nocs: "\<not> regex_test eqCase anyChar sectionOpen sectionClose d"
    and core: "indexOf d coreCapabilitiesEnd = Some k"
    and out: "k + length coreCapabilitiesEnd \<le> i
              \<or> i + match_length sectionOpen sectionClose cap \<le> k"
  shows "updateImplementedFeaturesSection d F =
           take (k + length coreCapabilitiesEnd) d @ ''\<newline>\<newline>  '' @ newSectionOf F
           @ drop (k + length coreCapabilitiesEnd) d
       \<and> (\<exists>z. regex_matchAll eqNoCase anyChar sectionOpen sectionClose
                 (updateImplementedFeaturesSection d F)
               = (if k + length coreCapabilitiesEnd \<le> i then [sectionBody F, cap]
                  else [cap, z @ sectionBody F]))"
proof -
  let ?p = "k + length coreCapabilitiesEnd"
  let ?r = "take ?p d @ ''\<newline>\<newline>  '' @ newSectionOf F @ drop ?p d"
  have r: "updateImplementedFeaturesSection d F = ?r"
    using nocs core by (simp add: updateImplementedFeaturesSection_def Let_def)
  have "search eqCase coreCapabilitiesEnd d = Some k" using core by (simp add: indexOf_def)
  then have p: "?p \<le> length d" by (rule search_Some_bound)
  have "\<exists>z. regex_matchAll eqNoCase anyChar sectionOpen sectionClose ?r
      = (if ?p \<le> i then [sectionBody F, cap] else [cap, z @ sectionBody F])"
  proof (cases "?p \<le> i")
    case True
    then show ?thesis using matchAll_inserted_before [OF sec True, of F] only by simp
  next
    case False
    then have "i + match_length sectionOpen sectionClose cap \<le> ?p" using out by simp
    then show ?thesis using matchAll_inserted_after [OF sec only _ p, of F] False by simp
  qed
  then show ?thesis unfolding r by simp
qed

theorem case_variant_section_kept_witness:
  "updateImplementedFeaturesSection
     ''<core_capabilities>x</core_capabilities><IMPLEMENTED_FEATURES><feature><name>A</name></feature></IMPLEMENTED_FEATURES>'' []
   = ''<core_capabilities>x</core_capabilities>\<newline>\<newline>  <implemented_features>\<newline>\<newline>  </implemented_features><IMPLEMENTED_FEATURES><feature><name>A</name></feature></IMPLEMENTED_FEATURES>''
   \<and> regex_matchAll eqNoCase anyChar sectionOpen sectionClose
       (updateImplementedFeaturesSection
          ''<core_capabilities>x</core_capabilities><IMPLEMENTED_FEATURES><feature><name>A</name></feature></IMPLEMENTED_FEATURES>'' [])
     = [''\<newline>\<newline>  '', ''<feature><name>A</name></feature>'']"
proof -
  let ?d = "''<core_capabilities>x</core_capabilities><IMPLEMENTED_FEATURES><feature><name>A</name></feature></IMPLEMENTED_FEATURES>''"
  let ?cap = "''<feature><name>A</name></feature>''"
  have 1: "regex_exec eqNoCase anyChar sectionOpen sectionClose ?d = Some (40, ?cap)" by code_simp
  have 2: "regex_matchAll eqNoCase anyChar sectionOpen sectionClose ?d = [?cap]" by code_simp
  have 3: "\<not> regex_test eqCase anyChar sectionOpen sectionClose ?d" by code_simp
  have 4: "indexOf ?d coreCapabilitiesEnd = Some 20" by code_simp
  have 5: "20 + length coreCapabilitiesEnd \<le> 40" by (simp add: coreCapabilitiesEnd_def)
  have 6: "take (20 + length coreCapabilitiesEnd) ?d @ ''\<newline>\<newline>  '' @ newSectionOf []
        @ drop (20 + length coreCapabilitiesEnd) ?d
      = ''<core_capabilities>x</core_capabilities>\<newline>\<newline>  <implemented_features>\<newline>\<newline>  </implemented_features><IMPLEMENTED_FEATURES><feature><name>A</name></feature></IMPLEMENTED_FEATURES>''"
    by code_simp
  have 7: "sectionBody [] = ''\<newline>\<newline>  ''" by code_simp
  note t = case_variant_section_kept [OF 1 2 3 4 disjI1 [OF 5], of "[]"]
  have a: "updateImplementedFeaturesSection ?d []
      = ''<core_capabilities>x</core_capabilities>\<newline>\<newline>  <implemented_features>\<newline>\<newline>  </implemented_features><IMPLEMENTED_FEATURES><feature><name>A</name></feature></IMPLEMENTED_FEATURES>''"
    using t [THEN conjunct1] unfolding 6 .
  from t [THEN conjunct2] obtain z where
    "regex_matchAll eqNoCase anyChar sectionOpen sectionClose (updateImplementedFeaturesSection ?d [])
      = (if 20 + length coreCapabilitiesEnd \<le> 40 then [sectionBody [], ?cap]
         else [?cap, z @ sectionBody []])" ..
  then have "regex_matchAll eqNoCase anyChar sectionOpen sectionClose (updateImplementedFeaturesSection ?d [])
      = [''\<newline>\<newline>  '', ?cap]"
    by (simp only: 5 if_True 7)
  with a show ?thesis by (rule conjI)
qed

theorem case_variant_section_kept_counterexample:
  "regex_matchAll eqNoCase anyChar sectionOpen sectionClose
     ''<IMPLEMENTED_FEATURES></core_capabilities></IMPLEMENTED_FEATURES>''
   = [''</core_capabilities>'']
   \<and> \<not> regex_test eqCase anyChar sectionOpen sectionClose
       ''<IMPLEMENTED_FEATURES></core_capabilities></IMPLEMENTED_FEATURES>''
   \<and> updateImplementedFeaturesSection
       ''<IMPLEMENTED_FEATURES></core_capabilities></IMPLEMENTED_FEATURES>'' []
     = ''<IMPLEMENTED_FEATURES></core_capabilities>\<newline>\<newline>  <implemented_features>\<newline>\<newline>  </implemented_features></IMPLEMENTED_FEATURES>''
   \<and> regex_matchAll eqNoCase anyChar sectionOpen sectionClose
       (updateImplementedFeaturesSection
          ''<IMPLEMENTED_FEATURES></core_capabilities></IMPLEMENTED_FEATURES>'' [])
     = [''</core_capabilities>\<newline>\<newline>  <implemented_features>\<newline>\<newline>  '']"
  by code_simp

text \<open>
  C10: \<open>updateImplementedFeaturesSection\<close> changes nothing outside the affected span.
  The document is \<open>pre @ old @ post\<close> and the result is \<open>pre @ new @ post\<close>: in the
  replace branch \<open>pre\<close> is the text before the first match and \<open>old\<close> is the
  matched section; in the insertion branches and in the fallback \<open>old\<close> is empty, so
  the whole document is kept around the inserted text.
\<close>

theorem update_section_frame:
  "\<exists>pre old new post.
     d = pre @ old @ post \<and> updateImplementedFeaturesSection d F = pre @ new @ post
     \<and> (case regex_exec eqCase anyChar sectionOpen sectionClose d of
          Some (i, cap) \<Rightarrow> pre = take i d \<and> old = sectionOpen @ cap @ sectionClose
        | None \<Rightarrow> old = [])"
proof (cases "regex_exec eqCase anyChar sectionOpen sectionClose d")
  case None
  let ?new = "newSectionOf F"
  show ?thesis
  proof (cases "indexOf d coreCapabilitiesEnd")
    case (Some k)
    let ?p = "k + length coreCapabilitiesEnd"
    have "d = take ?p d @ [] @ drop ?p d" by simp
    moreover have "updateImplementedFeaturesSection d F
        = take ?p d @ (''\<newline>\<newline>  '' @ ?new) @ drop ?p d"
      using None Some by (simp add: updateImplementedFeaturesSection_def regex_test_def Let_def)
    ultimately show ?thesis by (rule frameI) (simp add: None)
  next
    case core: None
    show ?thesis
    proof (cases "indexOf d projectSpecEnd")
      case (Some k)
      have "d = take k d @ [] @ drop k d" by simp
      moreover have "updateImplementedFeaturesSection d F
          = take k d @ (''  '' @ ?new @ ''\<newline>'') @ drop k d"
        using None core Some
        by (simp add: updateImplementedFeaturesSection_def regex_test_def Let_def)
      ultimately show ?thesis by (rule frameI) (simp add: None)
    next
      case proj: None
      have "d = [] @ [] @ d" by simp
      moreover have "updateImplementedFeaturesSection d F = [] @ [] @ d"
        using None core proj
        by (simp add: updateImplementedFeaturesSection_def regex_test_def Let_def)
      ultimately show ?thesis by (rule frameI) (simp add: None)
    qed
  qed
next
  case (Some m)
  obtain i cap where m: "m = (i, cap)" by (cases m)
  let ?n = "match_length sectionOpen sectionClose cap"
  let ?old = "sectionOpen @ cap @ sectionClose"
  let ?new = "getSubstitution (take ?n (drop i d)) (take i d) (drop (i + ?n) d) (newSectionOf F)"
  have "d = take i d @ ?old @ drop (i + ?n) d"
    using regex_exec_eqCase_decomp Some m by simp
  moreover have "updateImplementedFeaturesSection d F = take i d @ ?new @ drop (i + ?n) d"
    using Some m
    by (simp add: updateImplementedFeaturesSection_def regex_test_def regex_replace_def Let_def)
  ultimately show ?thesis by (rule frameI) (simp add: Some m)
qed

end
